theory Spec2Isabelle
  imports Main "HOL-Library.Word" "HOL-Library.AList"
begin

unbundle bit_operations_syntax

section \<open>Data model of cachelab.c\<close>

text \<open>
  A memory address is an \<^verbatim>\<open>unsigned long long\<close>, a pointer to a block is an address of the
  modelled heap or \<^verbatim>\<open>NULL\<close> (\<open>None\<close>).
\<close>

type_synonym mem_addr_t = "64 word"
type_synonym ptr = "nat option"

text \<open>
  \<^verbatim>\<open>struct block\<close>: the fields \<^verbatim>\<open>tag\<close> and \<^verbatim>\<open>valid\<close> are C \<^verbatim>\<open>int\<close>s. The tag is kept as a
  32-bit word because the assignment \<^verbatim>\<open>int tag = (addr >> (s + b))\<close> cuts a 64-bit value
  down to it; \<^verbatim>\<open>valid\<close> only ever holds 0 or 1. The fields \<^verbatim>\<open>next\<close> and \<^verbatim>\<open>prev\<close> are
  called \<open>next_ptr\<close> and \<open>prev_ptr\<close> here.
\<close>

record cache_block =
  tag :: "32 word"
  valid :: int
  next_ptr :: ptr
  prev_ptr :: ptr

record cache_set =
  LRU_head :: ptr
  LRU_tail :: ptr

text \<open>
  The heap holds the blocks obtained from \<^verbatim>\<open>malloc\<close> and not yet given back by \<^verbatim>\<open>free\<close>,
  as an association list from addresses to block contents.
\<close>

type_synonym heap = "(nat \<times> cache_block) list"

text \<open>
  The globals of the program: the array \<^verbatim>\<open>c1.sets\<close>, the array \<^verbatim>\<open>size\<close> (called \<open>size_arr\<close>),
  \<^verbatim>\<open>set_index\<close> and the three counters. The counters are C \<^verbatim>\<open>int\<close>s (lines 96 to 98):
  32-bit words here, so that \<^verbatim>\<open>hit_count++\<close> at \<open>2 ^ 31 - 1\<close> wraps around as it does in the
  compiled program, and \<open>sint\<close> reads the number \<^verbatim>\<open>printf\<close> prints. The entries of \<^verbatim>\<open>size\<close>
  are integers; they stay at most E when E is at least 1.
\<close>

record state =
  heap :: heap
  sets :: "cache_set list"
  size_arr :: "int list"
  set_index :: int
  miss_count :: "32 word"
  hit_count :: "32 word"
  eviction_count :: "32 word"

text \<open>
  What C leaves undefined is an error value of the model: dereferencing \<^verbatim>\<open>NULL\<close>,
  using a block after \<^verbatim>\<open>free\<close>, a shift by a negative count or by at least the width of
  the type, and indexing an array outside its bounds. \<open>MissingArgument\<close> is the exit of
  \<^verbatim>\<open>main\<close> at line 242.
\<close>

datatype error = NullDeref | DanglingDeref | UndefinedShift | OutOfBounds | MissingArgument

definition bind_e :: "error + 'a \<Rightarrow> ('a \<Rightarrow> error + 'b) \<Rightarrow> error + 'b" where
  "bind_e m f = (case m of Inl e \<Rightarrow> Inl e | Inr x \<Rightarrow> f x)"

text \<open>
  A run that does not return (the search loop on a cyclic chain) is \<open>None\<close>; a run that
  returns gives \<open>Some\<close> of an error or of a result.
\<close>

definition bind_r :: "(error + 'a) option \<Rightarrow> ('a \<Rightarrow> (error + 'b) option) \<Rightarrow> (error + 'b) option" where
  "bind_r m f = (case m of None \<Rightarrow> None | Some (Inl e) \<Rightarrow> Some (Inl e) | Some (Inr x) \<Rightarrow> f x)"

section \<open>Heap primitives\<close>

text \<open>Reading through a pointer, \<^verbatim>\<open>p->f\<close>.\<close>

definition load :: "heap \<Rightarrow> ptr \<Rightarrow> error + cache_block" where
  "load h p =
     (case p of
        None \<Rightarrow> Inl NullDeref
      | Some a \<Rightarrow> (case map_of h a of None \<Rightarrow> Inl DanglingDeref | Some blk \<Rightarrow> Inr blk))"

text \<open>Writing through a pointer, \<^verbatim>\<open>p->f = v\<close>, as an update \<open>f\<close> of the block.\<close>

definition store :: "heap \<Rightarrow> ptr \<Rightarrow> (cache_block \<Rightarrow> cache_block) \<Rightarrow> error + heap" where
  "store h p f = bind_e (load h p) (\<lambda>blk. Inr (AList.update (the p) (f blk) h))"

text \<open>\<^verbatim>\<open>free(p)\<close>; \<^verbatim>\<open>free(NULL)\<close> does nothing.\<close>

definition free :: "heap \<Rightarrow> ptr \<Rightarrow> error + heap" where
  "free h p =
     (case p of
        None \<Rightarrow> Inr h
      | Some a \<Rightarrow> (case map_of h a of None \<Rightarrow> Inl DanglingDeref | Some blk \<Rightarrow> Inr (AList.delete a h)))"

text \<open>
  The contents of a block fresh from \<^verbatim>\<open>malloc\<close> are indeterminate; the program writes
  every field of a new block before it reads one.
\<close>

definition uninit_block :: cache_block where
  "uninit_block = \<lparr>tag = 0, valid = 0, next_ptr = None, prev_ptr = None\<rparr>"

text \<open>
  \<^verbatim>\<open>malloc\<close> is a parameter \<open>malloc :: heap \<Rightarrow> ptr\<close> of the model: which address it
  returns is not fixed by the program, and it may return \<^verbatim>\<open>NULL\<close>.
\<close>

definition new_block :: "(heap \<Rightarrow> ptr) \<Rightarrow> heap \<Rightarrow> ptr \<times> heap" where
  "new_block malloc h =
     (case malloc h of
        None \<Rightarrow> (None, h)
      | Some a \<Rightarrow> (Some a, AList.update a uninit_block h))"

section \<open>State access\<close>

definition fld :: "state \<Rightarrow> ptr \<Rightarrow> (cache_block \<Rightarrow> 'a) \<Rightarrow> error + 'a" where
  "fld st p f = bind_e (load (heap st) p) (\<lambda>blk. Inr (f blk))"

definition put :: "state \<Rightarrow> ptr \<Rightarrow> (cache_block \<Rightarrow> cache_block) \<Rightarrow> error + state" where
  "put st p f = bind_e (store (heap st) p f) (\<lambda>h. Inr (st\<lparr>heap := h\<rparr>))"

text \<open>\<^verbatim>\<open>c1.sets[set_index]\<close> and \<^verbatim>\<open>size[set_index]\<close>, once the index is known to be in bounds.\<close>

definition cur_set :: "state \<Rightarrow> cache_set" where
  "cur_set st = sets st ! nat (set_index st)"

definition cur_size :: "state \<Rightarrow> int" where
  "cur_size st = size_arr st ! nat (set_index st)"

definition set_head :: "state \<Rightarrow> ptr \<Rightarrow> state" where
  "set_head st p = st\<lparr>sets := (sets st)[nat (set_index st) := (cur_set st)\<lparr>LRU_head := p\<rparr>]\<rparr>"

definition set_tail :: "state \<Rightarrow> ptr \<Rightarrow> state" where
  "set_tail st p = st\<lparr>sets := (sets st)[nat (set_index st) := (cur_set st)\<lparr>LRU_tail := p\<rparr>]\<rparr>"

definition set_size :: "state \<Rightarrow> int \<Rightarrow> state" where
  "set_size st n = st\<lparr>size_arr := (size_arr st)[nat (set_index st) := n]\<rparr>"

section \<open>accessData\<close>

text \<open>
  Lines 120 and 121. \<^verbatim>\<open>1<<s\<close> is an \<^verbatim>\<open>int\<close>; the mask \<^verbatim>\<open>(1<<s) - 1\<close> is converted to
  \<^verbatim>\<open>unsigned long long\<close> for the conjunction, and the result is stored in the \<^verbatim>\<open>int\<close>
  \<^verbatim>\<open>set_index\<close>. The tag is stored in an \<^verbatim>\<open>int\<close> as well.
\<close>

definition set_index_of :: "nat \<Rightarrow> nat \<Rightarrow> mem_addr_t \<Rightarrow> int" where
  "set_index_of s b addr =
     sint (ucast (drop_bit b addr AND scast (push_bit s (1 :: 32 word) - 1)) :: 32 word)"

definition tag_of :: "nat \<Rightarrow> nat \<Rightarrow> mem_addr_t \<Rightarrow> 32 word" where
  "tag_of s b addr = ucast (drop_bit (s + b) addr)"

text \<open>
  Lines 125 to 129: \<^verbatim>\<open>while (curr->next != NULL && curr->tag != tag) curr = curr->next;\<close>
  The loop need not end on a cyclic chain.
\<close>

partial_function (option) scan :: "heap \<Rightarrow> 32 word \<Rightarrow> ptr \<Rightarrow> (error + ptr) option" where
  "scan h tg cur =
     (case load h cur of
        Inl e \<Rightarrow> Some (Inl e)
      | Inr blk \<Rightarrow>
          if next_ptr blk \<noteq> None \<and> tag blk \<noteq> tg then scan h tg (next_ptr blk)
          else Some (Inr cur))"

declare scan.simps [code]

text \<open>Lines 140 to 144: the block found is neither first nor last.\<close>

definition move_inner :: "state \<Rightarrow> ptr \<Rightarrow> error + state" where
  "move_inner st cur =
     bind_e (fld st cur prev_ptr) (\<lambda>cp.
     bind_e (fld st cur next_ptr) (\<lambda>cn.
     bind_e (put st cp (\<lambda>blk. blk\<lparr>next_ptr := cn\<rparr>)) (\<lambda>st1.
     bind_e (fld st1 cur next_ptr) (\<lambda>cn1.
     bind_e (fld st1 cur prev_ptr) (\<lambda>cp1.
     bind_e (put st1 cn1 (\<lambda>blk. blk\<lparr>prev_ptr := cp1\<rparr>)) (\<lambda>st2.
     bind_e (put st2 cur (\<lambda>blk. blk\<lparr>next_ptr := LRU_head (cur_set st2)\<rparr>)) (\<lambda>st3.
     bind_e (put st3 cur (\<lambda>blk. blk\<lparr>prev_ptr := None\<rparr>)) (\<lambda>st4.
     Inr (set_head st4 cur)))))))))"

text \<open>Lines 148 to 153: the block found is last and not first.\<close>

definition move_last :: "state \<Rightarrow> ptr \<Rightarrow> error + state" where
  "move_last st cur =
     bind_e (fld st cur prev_ptr) (\<lambda>cp.
     bind_e (put st cp (\<lambda>blk. blk\<lparr>next_ptr := None\<rparr>)) (\<lambda>st1.
     bind_e (fld st1 cur prev_ptr) (\<lambda>cp1.
     bind_e (put (set_tail st1 cp1) cur (\<lambda>blk. blk\<lparr>prev_ptr := None\<rparr>)) (\<lambda>st2.
     bind_e (put st2 (LRU_head (cur_set st2)) (\<lambda>blk. blk\<lparr>prev_ptr := cur\<rparr>)) (\<lambda>st3.
     bind_e (put st3 cur (\<lambda>blk. blk\<lparr>next_ptr := LRU_head (cur_set st3)\<rparr>)) (\<lambda>st4.
     Inr (set_head st4 cur)))))))"

text \<open>Lines 133 to 157: the hit branch.\<close>

definition on_hit :: "state \<Rightarrow> ptr \<Rightarrow> error + state" where
  "on_hit st0 cur =
     (let st = st0\<lparr>hit_count := hit_count st0 + 1\<rparr> in
      if cur_size st > 1 then
        bind_e (fld st cur prev_ptr) (\<lambda>cp.
          if cp \<noteq> None then
            bind_e (fld st cur next_ptr) (\<lambda>cn.
              if cn \<noteq> None then move_inner st cur else move_last st cur)
          else Inr st)
      else Inr st)"

text \<open>Lines 163 to 167: a miss on an empty set reuses the block the head points to.\<close>

definition fill_empty :: "state \<Rightarrow> ptr \<Rightarrow> 32 word \<Rightarrow> error + state" where
  "fill_empty st cur tg =
     bind_e (put st cur (\<lambda>blk. blk\<lparr>tag := tg\<rparr>)) (\<lambda>st1.
     bind_e (put st1 cur (\<lambda>blk. blk\<lparr>valid := 1\<rparr>)) (\<lambda>st2.
     Inr (set_size (set_tail (set_head st2 cur) cur) (cur_size st2 + 1))))"

text \<open>Lines 173 to 178: the eviction of the block the tail points to.\<close>

definition evict :: "state \<Rightarrow> error + state" where
  "evict st =
     (let temp = LRU_tail (cur_set st) in
      bind_e (fld st temp prev_ptr) (\<lambda>tp.
      let st1 = set_tail st tp in
      bind_e (free (heap st1) temp) (\<lambda>h.
      let st2 = st1\<lparr>heap := h\<rparr> in
      bind_e (put st2 (LRU_tail (cur_set st2)) (\<lambda>blk. blk\<lparr>next_ptr := None\<rparr>)) (\<lambda>st3.
      let st4 = st3\<lparr>eviction_count := eviction_count st3 + 1\<rparr> in
      Inr (set_size st4 (cur_size st4 - 1))))))"

text \<open>
  Lines 181 to 189: a new block before the head. When \<^verbatim>\<open>malloc\<close> returns \<^verbatim>\<open>NULL\<close> the
  program prints a message and goes on to write through the null pointer.
\<close>

definition insert_front :: "(heap \<Rightarrow> ptr) \<Rightarrow> state \<Rightarrow> 32 word \<Rightarrow> error + state" where
  "insert_front malloc st tg =
     (let (temp, h) = new_block malloc (heap st); st0 = st\<lparr>heap := h\<rparr> in
      bind_e (put st0 (LRU_head (cur_set st0)) (\<lambda>blk. blk\<lparr>prev_ptr := temp\<rparr>)) (\<lambda>st1.
      bind_e (put st1 temp (\<lambda>blk. blk\<lparr>tag := tg\<rparr>)) (\<lambda>st2.
      bind_e (put st2 temp (\<lambda>blk. blk\<lparr>next_ptr := LRU_head (cur_set st2)\<rparr>)) (\<lambda>st3.
      bind_e (put st3 temp (\<lambda>blk. blk\<lparr>prev_ptr := None\<rparr>)) (\<lambda>st4.
      bind_e (put st4 temp (\<lambda>blk. blk\<lparr>valid := 1\<rparr>)) (\<lambda>st5.
      let st6 = set_head st5 temp in
      Inr (set_size st6 (cur_size st6 + 1))))))))"

text \<open>Lines 161 to 191: the miss branch.\<close>

definition on_miss :: "int \<Rightarrow> (heap \<Rightarrow> ptr) \<Rightarrow> state \<Rightarrow> ptr \<Rightarrow> 32 word \<Rightarrow> error + state" where
  "on_miss E malloc st cur tg =
     bind_e
       (if cur_size st = 0 then fill_empty st cur tg
        else
          bind_e (if cur_size st \<ge> E then evict st else Inr st) (\<lambda>st1.
          insert_front malloc st1 tg))
       (\<lambda>st2. Inr (st2\<lparr>miss_count := miss_count st2 + 1\<rparr>))"

text \<open>
  The whole function. The shifts are undefined for \<open>s \<ge> 31\<close> (\<^verbatim>\<open>1<<s\<close> on an \<^verbatim>\<open>int\<close>) and
  for \<open>s + b \<ge> 64\<close>; \<open>s\<close> and \<open>b\<close> are natural numbers here, a negative shift count
  being undefined too.
\<close>

definition accessData ::
  "nat \<Rightarrow> int \<Rightarrow> nat \<Rightarrow> (heap \<Rightarrow> ptr) \<Rightarrow> state \<Rightarrow> mem_addr_t \<Rightarrow> (error + state) option" where
  "accessData s E b malloc st0 addr =
     (if 31 \<le> s \<or> 64 \<le> s + b then Some (Inl UndefinedShift)
      else
        let st = st0\<lparr>set_index := set_index_of s b addr\<rparr>; tg = tag_of s b addr in
        if \<not> (0 \<le> set_index st \<and> nat (set_index st) < length (sets st)
               \<and> nat (set_index st) < length (size_arr st))
        then Some (Inl OutOfBounds)
        else
          bind_r (scan (heap st) tg (LRU_head (cur_set st))) (\<lambda>cur.
          Some (bind_e (load (heap st) cur) (\<lambda>blk.
            if tag blk = tg \<and> valid blk = 1 then on_hit st cur
            else on_miss E malloc st cur tg))))"

section \<open>main and replayTrace\<close>

text \<open>
  Lines 250 to 270 of \<^verbatim>\<open>main\<close>: \<open>2 ^ s\<close> sets, every \<^verbatim>\<open>size[i]\<close> zero, and for every set a
  head block with \<^verbatim>\<open>valid = 0\<close> and \<^verbatim>\<open>tag = -1\<close>. The array \<^verbatim>\<open>c1.sets\<close> comes from \<^verbatim>\<open>malloc\<close>
  with indeterminate contents \<open>junk i\<close>; \<^verbatim>\<open>LRU_tail\<close> is not written here.
\<close>

definition init_set :: "(heap \<Rightarrow> ptr) \<Rightarrow> nat \<Rightarrow> state \<Rightarrow> error + state" where
  "init_set malloc i st =
     (let (p, h) = new_block malloc (heap st);
          st1 = st\<lparr>heap := h, sets := (sets st)[i := (sets st ! i)\<lparr>LRU_head := p\<rparr>]\<rparr> in
      bind_e (put st1 (LRU_head (sets st1 ! i)) (\<lambda>blk. blk\<lparr>valid := 0\<rparr>)) (\<lambda>st2.
      bind_e (put st2 (LRU_head (sets st2 ! i)) (\<lambda>blk. blk\<lparr>tag := - 1\<rparr>)) (\<lambda>st3.
      bind_e (put st3 (LRU_head (sets st3 ! i)) (\<lambda>blk. blk\<lparr>next_ptr := None\<rparr>)) (\<lambda>st4.
      put st4 (LRU_head (sets st4 ! i)) (\<lambda>blk. blk\<lparr>prev_ptr := None\<rparr>)))))"

fun init_loop :: "(heap \<Rightarrow> ptr) \<Rightarrow> nat list \<Rightarrow> state \<Rightarrow> error + state" where
  "init_loop malloc [] st = Inr st"
| "init_loop malloc (i # rest) st = bind_e (init_set malloc i st) (init_loop malloc rest)"

definition main_init :: "nat \<Rightarrow> (heap \<Rightarrow> ptr) \<Rightarrow> (nat \<Rightarrow> cache_set) \<Rightarrow> error + state" where
  "main_init s malloc junk =
     init_loop malloc [0..<2 ^ s]
       \<lparr>heap = [], sets = map junk [0..<2 ^ s], size_arr = replicate (2 ^ s) 0,
        set_index = 0, miss_count = 0, hit_count = 0, eviction_count = 0\<rparr>"

text \<open>
  Lines 326 to 337 of \<^verbatim>\<open>replayTrace\<close>, over the lines of the trace already read: a record
  is the character \<^verbatim>\<open>buf[1]\<close> and the address \<^verbatim>\<open>sscanf\<close> found.
\<close>

type_synonym trace_record = "char \<times> mem_addr_t"

fun replayTrace ::
  "nat \<Rightarrow> int \<Rightarrow> nat \<Rightarrow> (heap \<Rightarrow> ptr) \<Rightarrow> trace_record list \<Rightarrow> state \<Rightarrow> (error + state) option" where
  "replayTrace s E b malloc [] st = Some (Inr st)"
| "replayTrace s E b malloc ((c, addr) # rest) st =
     (if c = CHR ''S'' \<or> c = CHR ''L'' \<or> c = CHR ''M'' then
        bind_r (accessData s E b malloc st addr) (\<lambda>st1.
        if c = CHR ''M'' then
          bind_r (accessData s E b malloc st1 addr) (replayTrace s E b malloc rest)
        else replayTrace s E b malloc rest st1)
      else replayTrace s E b malloc rest st)"

text \<open>
  The three counters, and the numbers \<^verbatim>\<open>printSummary\<close> prints for them with \<^verbatim>\<open>%d\<close>.
\<close>

definition counters :: "state \<Rightarrow> 32 word \<times> 32 word \<times> 32 word" where
  "counters st = (hit_count st, miss_count st, eviction_count st)"

definition summary :: "state \<Rightarrow> int \<times> int \<times> int" where
  "summary st = (sint (hit_count st), sint (miss_count st), sint (eviction_count st))"

text \<open>
  Lines 250 to 277 of \<^verbatim>\<open>main\<close>: the cache is built, the trace replayed and the counters
  handed to \<^verbatim>\<open>printSummary\<close>. The check of the arguments at line 239 comes before this
  part and is not in it; \<open>main\<close> below has both.
\<close>

definition simulate ::
  "nat \<Rightarrow> int \<Rightarrow> nat \<Rightarrow> (heap \<Rightarrow> ptr) \<Rightarrow> (nat \<Rightarrow> cache_set) \<Rightarrow> trace_record list
     \<Rightarrow> (error + int \<times> int \<times> int) option" where
  "simulate s E b malloc junk recs =
     bind_r (Some (main_init s malloc junk)) (\<lambda>st0.
     bind_r (replayTrace s E b malloc recs st0) (\<lambda>st. Some (Inr (summary st))))"

section \<open>Observing a set\<close>

text \<open>
  The blocks of a set in the order of the \<^verbatim>\<open>next\<close> pointers, starting at the head; at
  most as many steps as there are blocks in the heap, which is enough for a chain without
  a cycle. The valid ones among them are the occupants of the set.
\<close>

fun walk :: "nat \<Rightarrow> heap \<Rightarrow> ptr \<Rightarrow> cache_block list" where
  "walk 0 h p = []"
| "walk (Suc n) h p =
     (case p of
        None \<Rightarrow> []
      | Some a \<Rightarrow> (case map_of h a of None \<Rightarrow> [] | Some blk \<Rightarrow> blk # walk n h (next_ptr blk)))"

definition blocks_of :: "state \<Rightarrow> nat \<Rightarrow> cache_block list" where
  "blocks_of st i = walk (length (heap st)) (heap st) (LRU_head (sets st ! i))"

definition valid_blocks :: "state \<Rightarrow> nat \<Rightarrow> cache_block list" where
  "valid_blocks st i = filter (\<lambda>blk. valid blk = 1) (blocks_of st i)"

definition live_tags :: "state \<Rightarrow> nat \<Rightarrow> 32 word list" where
  "live_tags st i = map tag (valid_blocks st i)"

text \<open>A trace of loads, and set arrays whose indeterminate pointers are all null.\<close>

definition loads :: "mem_addr_t list \<Rightarrow> trace_record list" where
  "loads as = map (\<lambda>a. (CHR ''L'', a)) as"

definition null_sets :: "nat \<Rightarrow> cache_set" where
  "null_sets i = \<lparr>LRU_head = None, LRU_tail = None\<rparr>"

text \<open>
  The state after a trace replayed on the cache \<^verbatim>\<open>main\<close> builds (lines 250 to 273, after
  the check of the arguments).
\<close>

definition run ::
  "nat \<Rightarrow> int \<Rightarrow> nat \<Rightarrow> (heap \<Rightarrow> ptr) \<Rightarrow> (nat \<Rightarrow> cache_set) \<Rightarrow> trace_record list
     \<Rightarrow> (error + state) option" where
  "run s E b malloc junk recs =
     bind_r (Some (main_init s malloc junk)) (replayTrace s E b malloc recs)"

text \<open>
  Line 239 of \<^verbatim>\<open>main\<close>: a run with \<^verbatim>\<open>s == 0 || E == 0 || b == 0\<close> prints the usage text and
  exits before the cache is built (the file name of the trace is not part of the model).
\<close>

definition args_ok :: "nat \<Rightarrow> int \<Rightarrow> nat \<Rightarrow> bool" where
  "args_ok s E b = (\<not> (s = 0 \<or> E = 0 \<or> b = 0))"

definition main ::
  "nat \<Rightarrow> int \<Rightarrow> nat \<Rightarrow> (heap \<Rightarrow> ptr) \<Rightarrow> (nat \<Rightarrow> cache_set) \<Rightarrow> trace_record list
     \<Rightarrow> (error + int \<times> int \<times> int) option" where
  "main s E b malloc junk recs =
     (if s = 0 \<or> E = 0 \<or> b = 0 then Some (Inl MissingArgument)
      else simulate s E b malloc junk recs)"

text \<open>
  Recency from the history of accesses: the position of the last access to a tag (0 when
  it was never accessed), and the occupant whose last access is oldest.
\<close>

definition last_access :: "32 word list \<Rightarrow> 32 word \<Rightarrow> nat" where
  "last_access hist t = length (dropWhile (\<lambda>x. x \<noteq> t) (rev hist))"

definition least_recent :: "32 word list \<Rightarrow> 32 word list \<Rightarrow> 32 word" where
  "least_recent hist occupants = arg_min_list (last_access hist) occupants"

text \<open>Two allocators: one never reuses an address, one takes the lowest free address.\<close>

definition malloc_top :: "heap \<Rightarrow> ptr" where
  "malloc_top h = Some (fold (\<lambda>(a, _) m. max (Suc a) m) h 0)"

definition malloc_low :: "heap \<Rightarrow> ptr" where
  "malloc_low h = List.find (\<lambda>a. a \<notin> fst ` set h) [0..<Suc (length h)]"

text \<open>
  The cache accesses a trace asks for: one for a load or a store, two for a modify, none
  for any other line.
\<close>

fun accesses :: "trace_record list \<Rightarrow> int" where
  "accesses [] = 0"
| "accesses ((c, addr) # rest) =
     (if c = CHR ''M'' then 2 else if c = CHR ''S'' \<or> c = CHR ''L'' then 1 else 0) + accesses rest"

text \<open>
  \<^verbatim>\<open>accessData\<close> returns nothing; the outcome of a call is read off the counters before
  and after it.
\<close>

definition is_hit :: "state \<Rightarrow> state \<Rightarrow> bool" where
  "is_hit st st' = (counters st' = (hit_count st + 1, miss_count st, eviction_count st))"

definition is_miss :: "state \<Rightarrow> state \<Rightarrow> bool" where
  "is_miss st st' =
     (counters st' = (hit_count st, miss_count st + 1, eviction_count st) \<or>
      counters st' = (hit_count st, miss_count st + 1, eviction_count st + 1))"

text \<open>
  From \<open>st\<close> to \<open>st'\<close> the counters advance by \<open>n\<close> accesses: some numbers of hits, misses
  and evictions were added, in 32-bit arithmetic, with \<open>n\<close> hits and misses together and
  at most as many evictions as misses.
\<close>

definition counted :: "state \<Rightarrow> state \<Rightarrow> int \<Rightarrow> bool" where
  "counted st st' n \<longleftrightarrow>
     (\<exists>nh nm ne :: nat.
        counters st' =
          (hit_count st + of_nat nh, miss_count st + of_nat nm, eviction_count st + of_nat ne) \<and>
        int (nh + nm) = n \<and> ne \<le> nm)"

definition returns :: "(error + 'a) option \<Rightarrow> bool" where
  "returns r = (case r of Some (Inr x) \<Rightarrow> True | _ \<Rightarrow> False)"

section \<open>The list of a set, without addresses\<close>

text \<open>
  What an access does to a set depends on the tags and valid flags of its blocks, on their
  order, and on which blocks have a \<^verbatim>\<open>prev\<close> pointer that is not \<^verbatim>\<open>NULL\<close>. An \<open>ablock\<close>
  keeps these three things; the addresses of the blocks are left out.
\<close>

record ablock =
  atag :: "32 word"
  avalid :: int
  linked :: bool

text \<open>
  The heap block an \<open>ablock\<close> stands for, given the addresses before and after it in
  the list: its \<^verbatim>\<open>prev\<close> pointer is the address before it when it is linked and \<^verbatim>\<open>NULL\<close>
  otherwise.
\<close>

definition blk_of :: "ptr \<Rightarrow> ptr \<Rightarrow> ablock \<Rightarrow> cache_block" where
  "blk_of pr nx k =
     \<lparr>tag = atag k, valid = avalid k, next_ptr = nx, prev_ptr = (if linked k then pr else None)\<rparr>"

text \<open>
  The first address of a list of blocks (or \<open>nx\<close> for the empty list) and its last
  address (or \<open>pr\<close>).
\<close>

fun hdp :: "(nat \<times> 'x) list \<Rightarrow> ptr \<Rightarrow> ptr" where
  "hdp [] nx = nx"
| "hdp (x # xs) nx = Some (fst x)"

fun lastp :: "(nat \<times> 'x) list \<Rightarrow> ptr \<Rightarrow> ptr" where
  "lastp [] pr = pr"
| "lastp (x # xs) pr = lastp xs (Some (fst x))"

text \<open>
  \<open>rep m pr xs nx\<close>: in the heap \<open>m\<close> the blocks at the addresses of \<open>xs\<close> form a chain of
  \<^verbatim>\<open>next\<close> pointers that ends in \<open>nx\<close>, each block as its \<open>ablock\<close> says; \<open>pr\<close> is the address
  before the first block.
\<close>

fun rep :: "(nat \<rightharpoonup> cache_block) \<Rightarrow> ptr \<Rightarrow> (nat \<times> ablock) list \<Rightarrow> ptr \<Rightarrow> bool" where
  "rep m pr [] nx = True"
| "rep m pr (x # xs) nx =
     (m (fst x) = Some (blk_of pr (hdp xs nx) (snd x)) \<and> rep m (Some (fst x)) xs nx)"

text \<open>
  The blocks \<open>rep\<close> describes, in list order.
\<close>

fun cblocks :: "ptr \<Rightarrow> (nat \<times> ablock) list \<Rightarrow> cache_block list" where
  "cblocks pr [] = []"
| "cblocks pr (x # xs) = blk_of pr (hdp xs None) (snd x) # cblocks (Some (fst x)) xs"

text \<open>
  Where the search loop of lines 125 to 129 stops: at the first element for which \<open>P\<close>
  (the tag differs) fails, or at the last element.
\<close>

fun split_scan :: "('x \<Rightarrow> bool) \<Rightarrow> 'x list \<Rightarrow> ('x list \<times> 'x \<times> 'x list) option" where
  "split_scan P [] = None"
| "split_scan P [x] = Some ([], x, [])"
| "split_scan P (x # y # ys) =
     (if P x then map_option (\<lambda>(pre, c, post). (x # pre, c, post)) (split_scan P (y # ys))
      else Some ([], x, y # ys))"

text \<open>
  The invariant of one set with head and tail pointers \<open>cs\<close> and size \<open>sz\<close>: the list is not
  empty, its addresses are distinct, the head points to its first block, whose \<^verbatim>\<open>prev\<close> is
  \<^verbatim>\<open>NULL\<close>. A set of size 0 is the single invalid block \<^verbatim>\<open>main\<close> allocated; otherwise the
  size is the length of the list, the tail points to the last block, every block is valid
  and no tag occurs twice. A block other than the first may have \<^verbatim>\<open>prev == NULL\<close>.
\<close>

definition set_ok :: "(nat \<rightharpoonup> cache_block) \<Rightarrow> cache_set \<Rightarrow> int \<Rightarrow> (nat \<times> ablock) list \<Rightarrow> bool" where
  "set_ok m cs sz xs \<longleftrightarrow>
     xs \<noteq> [] \<and> distinct (map fst xs) \<and> rep m None xs None \<and>
     LRU_head cs = Some (fst (hd xs)) \<and> \<not> linked (snd (hd xs)) \<and>
     (if sz = 0 then length xs = 1 \<and> avalid (snd (hd xs)) = 0
      else sz = int (length xs) \<and> LRU_tail cs = Some (fst (last xs)) \<and>
           (\<forall>x\<in>set xs. avalid (snd x) = 1) \<and> distinct (map (atag \<circ> snd) xs))"

text \<open>
  The invariant of the whole state: every set satisfies \<open>set_ok\<close> for its list, and no
  block belongs to two sets.
\<close>

definition wf_state :: "state \<Rightarrow> (nat \<times> ablock) list list \<Rightarrow> bool" where
  "wf_state st X \<longleftrightarrow>
     length (sets st) = length X \<and> length (size_arr st) = length X \<and>
     (\<forall>i<length X. set_ok (map_of (heap st)) (sets st ! i) (size_arr st ! i) (X ! i)) \<and>
     (\<forall>i<length X. \<forall>j<length X. i \<noteq> j \<longrightarrow> fst ` set (X ! i) \<inter> fst ` set (X ! j) = {})"

text \<open>
  What a step may change: heap cells in \<open>A\<close>, and the entries of the current set in
  \<^verbatim>\<open>c1.sets\<close> and \<^verbatim>\<open>size\<close>.
\<close>

definition frame :: "state \<Rightarrow> state \<Rightarrow> nat set \<Rightarrow> bool" where
  "frame st st' A \<longleftrightarrow>
     (\<forall>a. a \<notin> A \<longrightarrow> map_of (heap st') a = map_of (heap st) a) \<and>
     length (sets st') = length (sets st) \<and> length (size_arr st') = length (size_arr st) \<and>
     (\<forall>j. j \<noteq> nat (set_index st) \<longrightarrow> sets st' ! j = sets st ! j \<and> size_arr st' ! j = size_arr st ! j) \<and>
     set_index st' = set_index st"

text \<open>
  \<^verbatim>\<open>malloc\<close> behaves when it returns the address of a block that is not in use (and never
  \<^verbatim>\<open>NULL\<close>).
\<close>

definition good_malloc :: "(heap \<Rightarrow> ptr) \<Rightarrow> bool" where
  "good_malloc malloc \<longleftrightarrow> (\<forall>h. \<exists>t. malloc h = Some t \<and> map_of h t = None)"

text \<open>
  The hit branch on the list \<open>pre @ c # post\<close>, \<open>c\<close> being the block found: the block moves
  to the front when the set has more than one block and the \<^verbatim>\<open>prev\<close> pointer of \<open>c\<close> is not
  \<^verbatim>\<open>NULL\<close>. Moving the last block links the old head to it (line 151); moving an inner
  block links its successor to its predecessor and leaves the old head unlinked.
\<close>

definition a_hit :: "int \<Rightarrow> ablock list \<Rightarrow> ablock \<Rightarrow> ablock list \<Rightarrow> ablock list" where
  "a_hit sz pre c post =
     (if sz > 1 \<and> linked c \<and> pre \<noteq> [] then
        (case post of
           [] \<Rightarrow> c\<lparr>linked := False\<rparr> # (hd pre)\<lparr>linked := True\<rparr> # tl pre
         | n # post' \<Rightarrow> c\<lparr>linked := False\<rparr> # pre @ n\<lparr>linked := True\<rparr> # post')
      else pre @ c # post)"

text \<open>
  The miss branch: the eviction of the last block, which dereferences \<^verbatim>\<open>NULL\<close> when that
  block is not linked, and the new block before the old head.
\<close>

definition a_evict :: "int \<Rightarrow> int \<Rightarrow> ablock list \<Rightarrow> error + int \<times> ablock list \<times> 32 word" where
  "a_evict E sz bs =
     (if sz \<ge> E then (if linked (last bs) then Inr (sz - 1, butlast bs, 1) else Inl NullDeref)
      else Inr (sz, bs, 0))"

definition a_insert :: "32 word \<Rightarrow> ablock list \<Rightarrow> ablock list" where
  "a_insert tg bs = \<lparr>atag = tg, avalid = 1, linked = False\<rparr> # (hd bs)\<lparr>linked := True\<rparr> # tl bs"

definition a_miss ::
  "int \<Rightarrow> int \<Rightarrow> 32 word \<Rightarrow> ablock \<Rightarrow> ablock list \<Rightarrow> error + int \<times> ablock list \<times> 32 word" where
  "a_miss E sz tg c bs =
     (if sz = 0 then Inr (sz + 1, [c\<lparr>atag := tg, avalid := 1\<rparr>], 0)
      else bind_e (a_evict E sz bs) (\<lambda>(sz1, bs1, ev). Inr (sz1 + 1, a_insert tg bs1, ev)))"

text \<open>
  The state without addresses: the lists of the sets, the array \<^verbatim>\<open>size\<close> and the three
  counters (hits, misses, evictions); \<^verbatim>\<open>accessData\<close>, the state \<^verbatim>\<open>main\<close> builds and
  \<^verbatim>\<open>replayTrace\<close> on it.
\<close>

record astate =
  asets :: "ablock list list"
  asizes :: "int list"
  acount :: "32 word \<times> 32 word \<times> 32 word"

definition a_access :: "nat \<Rightarrow> int \<Rightarrow> nat \<Rightarrow> astate \<Rightarrow> mem_addr_t \<Rightarrow> error + astate" where
  "a_access s E b A addr =
     (if 31 \<le> s \<or> 64 \<le> s + b then Inl UndefinedShift
      else
        let si = set_index_of s b addr; tg = tag_of s b addr; i = nat si in
        if \<not> (0 \<le> si \<and> i < length (asets A) \<and> i < length (asizes A)) then Inl OutOfBounds
        else
          (case split_scan (\<lambda>k. atag k \<noteq> tg) (asets A ! i) of
             None \<Rightarrow> Inl NullDeref
           | Some (pre, c, post) \<Rightarrow>
               (case acount A of (h, m, e) \<Rightarrow>
                  if atag c = tg \<and> avalid c = 1 then
                    Inr (A\<lparr>asets := (asets A)[i := a_hit (asizes A ! i) pre c post],
                            acount := (h + 1, m, e)\<rparr>)
                  else
                    bind_e (a_miss E (asizes A ! i) tg c (asets A ! i)) (\<lambda>(sz', bs', ev).
                    Inr (A\<lparr>asets := (asets A)[i := bs'], asizes := (asizes A)[i := sz'],
                            acount := (h, m + 1, e + ev)\<rparr>)))))"

definition sentinel :: ablock where
  "sentinel = \<lparr>atag = - 1, avalid = 0, linked = False\<rparr>"

definition a_init :: "nat \<Rightarrow> astate" where
  "a_init s = \<lparr>asets = replicate (2 ^ s) [sentinel], asizes = replicate (2 ^ s) 0, acount = (0, 0, 0)\<rparr>"

fun a_replay :: "nat \<Rightarrow> int \<Rightarrow> nat \<Rightarrow> trace_record list \<Rightarrow> astate \<Rightarrow> error + astate" where
  "a_replay s E b [] A = Inr A"
| "a_replay s E b ((c, addr) # rest) A =
     (if c = CHR ''S'' \<or> c = CHR ''L'' \<or> c = CHR ''M'' then
        bind_e (a_access s E b A addr) (\<lambda>A1.
        if c = CHR ''M'' then bind_e (a_access s E b A1 addr) (a_replay s E b rest)
        else a_replay s E b rest A1)
      else a_replay s E b rest A)"

text \<open>
  The state without addresses that a state stands for, given the lists of its sets; and
  when a run of the program refines a run on states without addresses: both stop with the
  same error, or both return and the results correspond.
\<close>

definition abs_of :: "state \<Rightarrow> (nat \<times> ablock) list list \<Rightarrow> astate" where
  "abs_of st X = \<lparr>asets = map (map snd) X, asizes = size_arr st, acount = counters st\<rparr>"

definition a_summary :: "astate \<Rightarrow> int \<times> int \<times> int" where
  "a_summary A = (case acount A of (h, m, e) \<Rightarrow> (sint h, sint m, sint e))"

definition refines :: "(error + state) option \<Rightarrow> error + astate \<Rightarrow> bool" where
  "refines c a =
     (case a of
        Inl e \<Rightarrow> c = Some (Inl e)
      | Inr A \<Rightarrow> \<exists>st X. c = Some (Inr st) \<and> wf_state st X \<and> abs_of st X = A)"

text \<open>
  The invariant of the loop of \<^verbatim>\<open>main\<close> that allocates the head blocks: the sets below
  \<open>length as\<close> have their head block at the addresses \<open>as\<close>.
\<close>

definition init_inv :: "nat list \<Rightarrow> state \<Rightarrow> bool" where
  "init_inv as st \<longleftrightarrow>
     length as \<le> length (sets st) \<and> length (size_arr st) = length (sets st) \<and>
     (\<forall>z\<in>set (size_arr st). z = 0) \<and> distinct as \<and>
     (\<forall>i<length as. LRU_head (sets st ! i) = Some (as ! i) \<and>
        map_of (heap st) (as ! i) = Some (blk_of None None sentinel))"

text \<open>
  Every entry of \<^verbatim>\<open>size\<close> is at most E.
\<close>

definition a_bounded :: "int \<Rightarrow> astate \<Rightarrow> bool" where
  "a_bounded E A \<longleftrightarrow> (\<forall>z\<in>set (asizes A). z \<le> E)"

section \<open>Sequencing\<close>

lemma bind_e_InrE:
  assumes "bind_e m f = Inr y"
  obtains x where "m = Inr x" and "f x = Inr y"
  using assms by (cases m) (simp_all add: bind_e_def)

lemma bind_r_InrE:
  assumes "bind_r m f = Some (Inr y)"
  obtains x where "m = Some (Inr x)" and "f x = Some (Inr y)"
  using assms by (auto simp: bind_r_def split: option.splits sum.splits)

lemma returnsE:
  assumes "returns r"
  obtains x where "r = Some (Inr x)"
  using assms by (auto simp: returns_def split: option.splits sum.splits)

section \<open>The counters\<close>

lemma put_counters: "put st p f = Inr st' \<Longrightarrow> counters st' = counters st"
  by (auto simp: put_def counters_def elim!: bind_e_InrE)

lemma set_head_counters [simp]: "counters (set_head st p) = counters st"
  by (simp add: set_head_def counters_def)

lemma set_tail_counters [simp]: "counters (set_tail st p) = counters st"
  by (simp add: set_tail_def counters_def)

lemma set_size_counters [simp]: "counters (set_size st n) = counters st"
  by (simp add: set_size_def counters_def)

lemma move_inner_counters: "move_inner st cur = Inr st' \<Longrightarrow> counters st' = counters st"
  unfolding move_inner_def
  by (elim bind_e_InrE) (auto dest!: put_counters)

lemma move_last_counters: "move_last st cur = Inr st' \<Longrightarrow> counters st' = counters st"
  unfolding move_last_def
  by (elim bind_e_InrE) (auto dest!: put_counters)

lemma on_hit_counters: "on_hit st cur = Inr st' \<Longrightarrow> is_hit st st'"
  unfolding on_hit_def Let_def is_hit_def
  by (auto split: if_splits elim!: bind_e_InrE dest!: move_inner_counters move_last_counters)
     (simp_all add: counters_def)

lemma fill_empty_counters: "fill_empty st cur tg = Inr st' \<Longrightarrow> counters st' = counters st"
  unfolding fill_empty_def
  by (elim bind_e_InrE) (auto dest!: put_counters)

lemma evict_counters:
  "evict st = Inr st' \<Longrightarrow> counters st' = (hit_count st, miss_count st, eviction_count st + 1)"
  unfolding evict_def Let_def
  by (elim bind_e_InrE) (auto dest!: put_counters simp: counters_def set_tail_def set_size_def)

lemma insert_front_counters: "insert_front malloc st tg = Inr st' \<Longrightarrow> counters st' = counters st"
  unfolding insert_front_def Let_def
  by (auto split: prod.splits elim!: bind_e_InrE dest!: put_counters
        simp: counters_def set_head_def set_size_def)

lemma on_miss_counters: "on_miss E malloc st cur tg = Inr st' \<Longrightarrow> is_miss st st'"
  unfolding on_miss_def is_miss_def
  by (auto split: if_splits elim!: bind_e_InrE
        dest!: fill_empty_counters evict_counters insert_front_counters simp: counters_def)

lemma accessData_outcome:
  "accessData s E b malloc st addr = Some (Inr st') \<Longrightarrow> is_hit st st' \<or> is_miss st st'"
  unfolding accessData_def Let_def
  by (auto split: if_splits elim!: bind_r_InrE bind_e_InrE dest!: on_hit_counters on_miss_counters
        simp: is_hit_def is_miss_def)

lemma counted_refl: "counted st st 0"
  unfolding counted_def by (intro exI [of _ 0]) (simp add: counters_def)

lemma counted_trans:
  assumes "counted st st1 a" and "counted st1 st2 b"
  shows "counted st st2 (a + b)"
proof -
  from assms(1) obtain nh nm ne where 1:
    "counters st1 = (hit_count st + of_nat nh, miss_count st + of_nat nm, eviction_count st + of_nat ne)"
    "int (nh + nm) = a" "ne \<le> nm"
    unfolding counted_def by blast
  from assms(2) obtain nh' nm' ne' where 2:
    "counters st2 = (hit_count st1 + of_nat nh', miss_count st1 + of_nat nm', eviction_count st1 + of_nat ne')"
    "int (nh' + nm') = b" "ne' \<le> nm'"
    unfolding counted_def by blast
  from 1 2 show ?thesis
    unfolding counted_def
    by (intro exI [of _ "nh + nh'"] exI [of _ "nm + nm'"] exI [of _ "ne + ne'"])
       (auto simp: counters_def)
qed

lemma counted_access:
  assumes "accessData s E b malloc st addr = Some (Inr st')"
  shows "counted st st' 1"
proof -
  from accessData_outcome [OF assms] consider
    (hit) "counters st' = (hit_count st + 1, miss_count st, eviction_count st)"
    | (miss) "counters st' = (hit_count st, miss_count st + 1, eviction_count st)"
    | (evict) "counters st' = (hit_count st, miss_count st + 1, eviction_count st + 1)"
    by (auto simp: is_hit_def is_miss_def)
  then show ?thesis
  proof cases
    case hit
    then show ?thesis
      unfolding counted_def by (intro exI [of _ 1] exI [of _ 0]) simp
  next
    case miss
    then show ?thesis
      unfolding counted_def by (intro exI [of _ 0] exI [of _ 1] exI [of _ 0]) simp
  next
    case evict
    then show ?thesis
      unfolding counted_def by (intro exI [of _ 0] exI [of _ 1] exI [of _ 1]) simp
  qed
qed

lemma replayTrace_counts:
  "replayTrace s E b malloc recs st = Some (Inr st') \<Longrightarrow> counted st st' (accesses recs)"
proof (induction recs arbitrary: st)
  case Nil
  then show ?case by (simp add: counted_refl)
next
  case (Cons r recs)
  obtain c addr where r: "r = (c, addr)" by (cases r)
  show ?case
  proof (cases "c = CHR ''S'' \<or> c = CHR ''L'' \<or> c = CHR ''M''")
    case False
    with Cons r show ?thesis by auto
  next
    case True
    with Cons.prems r obtain st1 where
      a1: "accessData s E b malloc st addr = Some (Inr st1)" and
      rest1: "(if c = CHR ''M'' then
          bind_r (accessData s E b malloc st1 addr) (replayTrace s E b malloc recs)
        else replayTrace s E b malloc recs st1) = Some (Inr st')"
      by (auto elim!: bind_r_InrE)
    note d1 = counted_access [OF a1]
    show ?thesis
    proof (cases "c = CHR ''M''")
      case False
      with rest1 have "replayTrace s E b malloc recs st1 = Some (Inr st')" by simp
      from counted_trans [OF d1 Cons.IH [OF this]] True False r show ?thesis by auto
    next
      case M: True
      with rest1 obtain st2 where
        a2: "accessData s E b malloc st1 addr = Some (Inr st2)" and
        rest2: "replayTrace s E b malloc recs st2 = Some (Inr st')"
        by (auto elim!: bind_r_InrE)
      from counted_trans [OF counted_trans [OF d1 counted_access [OF a2]] Cons.IH [OF rest2]] M r
      show ?thesis by (simp add: add.assoc)
    qed
  qed
qed

lemma sint_of_nat_small:
  assumes "n < 2 ^ 31"
  shows "sint (of_nat n :: 32 word) = int n"
proof -
  from assms have "n < 2 ^ 32"
    by simp
  then have u: "uint (of_nat n :: 32 word) = int n"
    by (simp add: unsigned_of_nat take_bit_nat_eq_self)
  have "sint (of_nat n :: 32 word) = signed_take_bit 31 (int n)"
    by (simp add: sint_uint u)
  also have "\<dots> = int n"
  proof (rule signed_take_bit_int_eq_self)
    show "- (2 ^ 31) \<le> int n"
      by (rule order_trans [of _ 0]) simp_all
    from assms show "int n < 2 ^ 31"
      by (metis of_nat_less_iff of_nat_numeral of_nat_power)
  qed
  finally show ?thesis .
qed

lemma counted_from_zero:
  assumes "counted st0 st n" and "counters st0 = (0, 0, 0)" and "n < 2 ^ 31"
  shows "sint (hit_count st) + sint (miss_count st) = n"
    and "sint (eviction_count st) \<le> sint (miss_count st)"
proof -
  from assms(1,2) obtain nh nm ne where c:
    "hit_count st = of_nat nh" "miss_count st = of_nat nm" "eviction_count st = of_nat ne"
    "int (nh + nm) = n" "ne \<le> nm"
    unfolding counted_def by (auto simp: counters_def)
  with assms(3) have "nh < 2 ^ 31" "nm < 2 ^ 31" "ne < 2 ^ 31"
    by auto
  with c show "sint (hit_count st) + sint (miss_count st) = n"
    and "sint (eviction_count st) \<le> sint (miss_count st)"
    by (simp_all add: sint_of_nat_small)
qed

lemma init_set_counters: "init_set malloc i st = Inr st' \<Longrightarrow> counters st' = counters st"
  unfolding init_set_def Let_def
  by (auto split: prod.splits elim!: bind_e_InrE dest!: put_counters simp: counters_def)

lemma init_loop_counters: "init_loop malloc is st = Inr st' \<Longrightarrow> counters st' = counters st"
  by (induction "is" arbitrary: st) (auto elim!: bind_e_InrE dest!: init_set_counters)

lemma main_init_counters: "main_init s malloc junk = Inr st \<Longrightarrow> counters st = (0, 0, 0)"
  unfolding main_init_def by (drule init_loop_counters) (simp add: counters_def)

section \<open>Set index and tag as arithmetic\<close>

lemma mask_as_int_mask: "push_bit s (1 :: 32 word) - 1 = mask s"
  by (simp add: mask_eq_decr_exp push_bit_eq_mult)

lemma scast_mask: "s < 32 \<Longrightarrow> (scast (mask s :: 32 word) :: 64 word) = mask s"
  by (rule bit_word_eqI) (auto simp add: bit_simps)

lemma sint_ucast_take_bit:
  assumes "s < 31"
  shows "sint (ucast (take_bit s (x :: 64 word)) :: 32 word) = int (unat x mod 2 ^ s)"
proof -
  let ?k = "uint x mod 2 ^ s"
  have k: "0 \<le> ?k" "?k < 2 ^ s"
    by simp_all
  have "(2 :: int) ^ s \<le> 2 ^ 30"
    using assms by (intro power_increasing) simp_all
  with k(2) have b30: "?k < 2 ^ 30"
    by (rule less_le_trans)
  then have b: "?k < 2 ^ 31" "?k < 2 ^ 32"
    by simp_all
  have "uint (ucast (take_bit s x) :: 32 word) = take_bit 32 (take_bit s (uint x))"
    by (simp add: unsigned_ucast_eq unsigned_take_bit_eq min.commute)
  also have "\<dots> = ?k"
    using k b by (simp add: take_bit_eq_mod)
  finally have u: "uint (ucast (take_bit s x) :: 32 word) = ?k" .
  have "sint (ucast (take_bit s x) :: 32 word) = signed_take_bit 31 ?k"
    by (simp add: sint_uint u)
  also have "\<dots> = ?k"
  proof (rule signed_take_bit_int_eq_self)
    from k(1) show "- (2 ^ 31) \<le> ?k"
      by (rule order_trans [rotated]) simp
    from b(1) show "?k < 2 ^ 31" .
  qed
  also have "\<dots> = int (unat x mod 2 ^ s)"
    by (simp add: zmod_int)
  finally show ?thesis .
qed

lemma set_index_of_eq:
  assumes "s < 31"
  shows "set_index_of s b addr = int ((unat addr div 2 ^ b) mod 2 ^ s)"
proof -
  have "set_index_of s b addr = sint (ucast (take_bit s (drop_bit b addr)) :: 32 word)"
    unfolding set_index_of_def mask_as_int_mask
    using assms by (simp only: scast_mask take_bit_eq_mask)
  also have "\<dots> = int (unat (drop_bit b addr) mod 2 ^ s)"
    by (rule sint_ucast_take_bit [OF assms])
  also have "unat (drop_bit b addr) = unat addr div 2 ^ b"
    by (simp only: unat_drop_bit_eq) (simp only: drop_bit_eq_div)
  finally show ?thesis .
qed

lemma tag_of_eq: "unat (tag_of s b addr) = (unat addr div 2 ^ (s + b)) mod 2 ^ 32"
proof -
  have "unat (tag_of s b addr) = take_bit 32 (unat (drop_bit (s + b) addr))"
    by (simp add: tag_of_def unsigned_ucast_eq)
  also have "unat (drop_bit (s + b) addr) = unat addr div 2 ^ (s + b)"
    by (simp only: unat_drop_bit_eq) (simp only: drop_bit_eq_div)
  finally show ?thesis
    by (simp only: take_bit_eq_mod)
qed

section \<open>Refinement\<close>

lemma lastp_append [simp]: "lastp (xs @ ys) pr = lastp ys (lastp xs pr)"
  by (induction xs arbitrary: pr) auto

lemma hdp_append [simp]: "hdp (xs @ ys) nx = hdp xs (hdp ys nx)"
  by (cases xs) auto

lemma lastp_eq: "xs \<noteq> [] \<Longrightarrow> lastp xs pr = Some (fst (last xs))"
  by (induction xs arbitrary: pr) auto

lemma rep_append [simp]:
  "rep m pr (xs @ ys) nx \<longleftrightarrow> rep m pr xs (hdp ys nx) \<and> rep m (lastp xs pr) ys nx"
  by (induction xs arbitrary: pr) auto

lemma rep_upd_other [simp]:
  "a \<notin> fst ` set xs \<Longrightarrow> rep (m(a := v)) pr xs nx \<longleftrightarrow> rep m pr xs nx"
  by (induction xs arbitrary: pr) auto

lemma rep_cong_on:
  "(\<And>a. a \<in> fst ` set xs \<Longrightarrow> m' a = m a) \<Longrightarrow> rep m' pr xs nx \<longleftrightarrow> rep m pr xs nx"
  by (induction xs arbitrary: pr) auto

lemma rep_dom: "rep m pr xs nx \<Longrightarrow> fst ` set xs \<subseteq> dom m"
  by (induction xs arbitrary: pr) auto

lemma split_scan_Some:
  "xs \<noteq> [] \<Longrightarrow> \<exists>pre c post. split_scan P xs = Some (pre, c, post) \<and> xs = pre @ c # post \<and>
     (\<forall>x\<in>set pre. P x) \<and> (post \<noteq> [] \<longrightarrow> \<not> P c)"
  by (induction P xs rule: split_scan.induct) (auto split: if_splits)

lemma split_scan_map:
  "split_scan P (map f xs) =
     map_option (\<lambda>(pre, c, post). (map f pre, f c, map f post)) (split_scan (P \<circ> f) xs)"
  by (induction "P \<circ> f" xs rule: split_scan.induct)
     (auto simp: option.map_comp comp_def split_def intro!: option.map_cong)

lemma scan_rep:
  assumes "rep (map_of h) pr (pre @ c # post) None"
    and "\<forall>x\<in>set pre. atag (snd x) \<noteq> tg" and "post \<noteq> [] \<longrightarrow> atag (snd c) = tg"
  shows "scan h tg (hdp (pre @ [c]) None) = Some (Inr (Some (fst c)))"
  using assms
proof (induction pre arbitrary: pr)
  case Nil
  then show ?case
    by (subst scan.simps) (cases post; auto simp: load_def blk_of_def)
next
  case (Cons x pre)
  from Cons.prems have "scan h tg (hdp (pre @ [c]) None) = Some (Inr (Some (fst c)))"
    by (intro Cons.IH [of "Some (fst x)"]) auto
  with Cons.prems show ?case
    by (subst scan.simps) (cases pre; auto simp: load_def blk_of_def)
qed

lemmas heap_ops = bind_e_def fld_def put_def load_def store_def free_def update_conv' delete_conv'
  set_head_def set_tail_def set_size_def cur_set_def cur_size_def counters_def

lemma move_inner_eval:
  assumes "map_of (heap st) a = Some ba" "prev_ptr ba = Some p" "next_ptr ba = Some n"
    and "map_of (heap st) p = Some bp" "map_of (heap st) n = Some bn"
    and "p \<noteq> a" "n \<noteq> a" "p \<noteq> n"
  shows "\<exists>st'. move_inner st (Some a) = Inr st' \<and>
     map_of (heap st') = (map_of (heap st))
        (p \<mapsto> bp\<lparr>next_ptr := Some n\<rparr>, n \<mapsto> bn\<lparr>prev_ptr := Some p\<rparr>,
         a \<mapsto> ba\<lparr>next_ptr := LRU_head (cur_set st), prev_ptr := None\<rparr>) \<and>
     sets st' = (sets st)[nat (set_index st) := (cur_set st)\<lparr>LRU_head := Some a\<rparr>] \<and>
     size_arr st' = size_arr st \<and> set_index st' = set_index st \<and> counters st' = counters st"
  using assms by (simp add: move_inner_def heap_ops)

lemma move_last_eval:
  assumes "map_of (heap st) a = Some ba" "prev_ptr ba = Some p"
    and "map_of (heap st) p = Some bp"
    and "LRU_head (cur_set st) = Some h0" "map_of (heap st) h0 = Some bh"
    and "p \<noteq> a" "h0 \<noteq> a" "nat (set_index st) < length (sets st)"
  shows "\<exists>st'. move_last st (Some a) = Inr st' \<and>
     map_of (heap st') = (map_of (heap st))
        (p \<mapsto> bp\<lparr>next_ptr := None\<rparr>,
         h0 \<mapsto> (if h0 = p then bp\<lparr>next_ptr := None\<rparr> else bh)\<lparr>prev_ptr := Some a\<rparr>,
         a \<mapsto> ba\<lparr>next_ptr := Some h0, prev_ptr := None\<rparr>) \<and>
     sets st' = (sets st)[nat (set_index st) := (cur_set st)\<lparr>LRU_tail := Some p, LRU_head := Some a\<rparr>] \<and>
     size_arr st' = size_arr st \<and> set_index st' = set_index st \<and> counters st' = counters st"
  using assms by (auto simp add: move_last_def heap_ops fun_upd_twist)

lemma fill_empty_eval:
  assumes "map_of (heap st) a = Some ba" "nat (set_index st) < length (sets st)"
  shows "\<exists>st'. fill_empty st (Some a) tg = Inr st' \<and>
     map_of (heap st') = (map_of (heap st))(a \<mapsto> ba\<lparr>tag := tg, valid := 1\<rparr>) \<and>
     sets st' = (sets st)[nat (set_index st) := (cur_set st)\<lparr>LRU_head := Some a, LRU_tail := Some a\<rparr>] \<and>
     size_arr st' = (size_arr st)[nat (set_index st) := cur_size st + 1] \<and>
     set_index st' = set_index st \<and> counters st' = counters st"
  using assms by (simp add: fill_empty_def heap_ops)

lemma evict_eval:
  assumes "LRU_tail (cur_set st) = Some l" "map_of (heap st) l = Some bl" "prev_ptr bl = Some p"
    and "map_of (heap st) p = Some bp" "p \<noteq> l" "nat (set_index st) < length (sets st)"
  shows "\<exists>st'. evict st = Inr st' \<and>
     map_of (heap st') = (map_of (heap st))(l := None, p \<mapsto> bp\<lparr>next_ptr := None\<rparr>) \<and>
     sets st' = (sets st)[nat (set_index st) := (cur_set st)\<lparr>LRU_tail := Some p\<rparr>] \<and>
     size_arr st' = (size_arr st)[nat (set_index st) := cur_size st - 1] \<and>
     set_index st' = set_index st \<and>
     counters st' = (hit_count st, miss_count st, eviction_count st + 1)"
  using assms by (simp add: evict_def heap_ops Let_def)

lemma evict_null:
  assumes "LRU_tail (cur_set st) = Some l" "map_of (heap st) l = Some bl" "prev_ptr bl = None"
    and "nat (set_index st) < length (sets st)"
  shows "evict st = Inl NullDeref"
  using assms by (simp add: evict_def heap_ops Let_def)

lemma insert_front_eval:
  assumes "malloc (heap st) = Some t" "map_of (heap st) t = None"
    and "LRU_head (cur_set st) = Some h0" "map_of (heap st) h0 = Some bh"
    and "nat (set_index st) < length (sets st)"
  shows "\<exists>st'. insert_front malloc st tg = Inr st' \<and>
     map_of (heap st') = (map_of (heap st))
       (h0 \<mapsto> bh\<lparr>prev_ptr := Some t\<rparr>,
        t \<mapsto> \<lparr>tag = tg, valid = 1, next_ptr = Some h0, prev_ptr = None\<rparr>) \<and>
     sets st' = (sets st)[nat (set_index st) := (cur_set st)\<lparr>LRU_head := Some t\<rparr>] \<and>
     size_arr st' = (size_arr st)[nat (set_index st) := cur_size st + 1] \<and>
     set_index st' = set_index st \<and> counters st' = counters st"
proof -
  from assms have "h0 \<noteq> t" by auto
  with assms show ?thesis
    by (simp add: insert_front_def new_block_def heap_ops Let_def uninit_block_def)
qed

lemma rep_unlinked_hd:
  "xs \<noteq> [] \<Longrightarrow> \<not> linked (snd (hd xs)) \<Longrightarrow> rep m pr xs nx \<longleftrightarrow> rep m None xs nx"
  by (cases xs) (auto simp: blk_of_def)

lemma rep_move_inner:
  assumes r: "rep m None (pre @ (p, kp) # (a, k) # (n, kn) # post) None"
    and d: "distinct (map fst (pre @ (p, kp) # (a, k) # (n, kn) # post))"
    and u: "\<not> linked (snd (hd (pre @ [(p, kp)])))"
    and mp: "m p = Some bp" and mn: "m n = Some bn" and ma: "m a = Some ba"
  shows "rep (m(p \<mapsto> bp\<lparr>next_ptr := Some n\<rparr>, n \<mapsto> bn\<lparr>prev_ptr := Some p\<rparr>,
              a \<mapsto> ba\<lparr>next_ptr := hdp (pre @ [(p, kp)]) None, prev_ptr := None\<rparr>))
           None ((a, k\<lparr>linked := False\<rparr>) # pre @ (p, kp) # (n, kn\<lparr>linked := True\<rparr>) # post) None"
proof (cases pre)
  case Nil
  with assms show ?thesis
    by (auto simp: blk_of_def image_iff)
next
  case (Cons x pre')
  with assms show ?thesis
    by (auto simp: blk_of_def image_iff)
qed

lemma rep_move_last:
  assumes r: "rep m None ((h0, kh) # pre @ [(a, k)]) None"
    and d: "distinct (map fst ((h0, kh) # pre @ [(a, k)]))"
    and p: "p = fst (last ((h0, kh) # pre))"
    and mp: "m p = Some bp" and mh: "m h0 = Some bh" and ma: "m a = Some ba"
  shows "rep (m(p \<mapsto> bp\<lparr>next_ptr := None\<rparr>,
              h0 \<mapsto> (if h0 = p then bp\<lparr>next_ptr := None\<rparr> else bh)\<lparr>prev_ptr := Some a\<rparr>,
              a \<mapsto> ba\<lparr>next_ptr := Some h0, prev_ptr := None\<rparr>))
           None ((a, k\<lparr>linked := False\<rparr>) # (h0, kh\<lparr>linked := True\<rparr>) # pre) None"
proof (cases pre rule: rev_cases)
  case Nil
  with assms show ?thesis
    by (auto simp: blk_of_def image_iff)
next
  case (snoc pre' x)
  with assms show ?thesis
    by (cases pre') (auto simp: blk_of_def image_iff)
qed

lemma rep_insert:
  assumes r: "rep m None ((h0, kh) # rest) None"
    and d: "distinct (map fst ((h0, kh) # rest))"
    and t: "t \<notin> fst ` set ((h0, kh) # rest)" and mh: "m h0 = Some bh"
  shows "rep (m(h0 \<mapsto> bh\<lparr>prev_ptr := Some t\<rparr>,
              t \<mapsto> \<lparr>tag = tg, valid = 1, next_ptr = Some h0, prev_ptr = None\<rparr>))
           None ((t, \<lparr>atag = tg, avalid = 1, linked = False\<rparr>) # (h0, kh\<lparr>linked := True\<rparr>) # rest) None"
  using assms by (auto simp: blk_of_def image_iff)

lemma rep_evict:
  assumes r: "rep m None (ys @ [(p, kp), (l, kl)]) None"
    and d: "distinct (map fst (ys @ [(p, kp), (l, kl)]))" and mp: "m p = Some bp"
  shows "rep (m(l := None, p \<mapsto> bp\<lparr>next_ptr := None\<rparr>)) None (ys @ [(p, kp)]) None"
  using assms by (auto simp: blk_of_def image_iff)

lemma on_hit_sim:
  assumes ok: "set_ok (map_of (heap st)) (cur_set st) (cur_size st) (pre @ (a, k) # post)"
    and bnd: "nat (set_index st) < length (sets st)"
  shows "\<exists>st' xs'. on_hit st (Some a) = Inr st' \<and>
       set_ok (map_of (heap st')) (cur_set st') (cur_size st') xs' \<and>
       map snd xs' = a_hit (cur_size st) (map snd pre) k (map snd post) \<and>
       fst ` set xs' = fst ` set (pre @ (a, k) # post) \<and>
       frame st st' (fst ` set (pre @ (a, k) # post)) \<and>
       cur_size st' = cur_size st \<and>
       counters st' = (hit_count st + 1, miss_count st, eviction_count st)"
proof -
  let ?xs = "pre @ (a, k) # post"
  let ?m = "map_of (heap st)"
  let ?st1 = "st\<lparr>hit_count := hit_count st + 1\<rparr>"
  from ok have r: "rep ?m None ?xs None" and d: "distinct (map fst ?xs)"
    and hd: "LRU_head (cur_set st) = Some (fst (hd ?xs))" and u: "\<not> linked (snd (hd ?xs))"
    by (simp_all add: set_ok_def)
  from r have ma: "?m a = Some (blk_of (lastp pre None) (hdp post None) k)"
    by simp
  have st1: "heap ?st1 = heap st" "cur_set ?st1 = cur_set st" "cur_size ?st1 = cur_size st"
    "sets ?st1 = sets st" "size_arr ?st1 = size_arr st" "set_index ?st1 = set_index st"
    "counters ?st1 = (hit_count st + 1, miss_count st, eviction_count st)"
    by (simp_all add: cur_set_def cur_size_def counters_def)
  consider (same) "\<not> (cur_size st > 1 \<and> linked k \<and> pre \<noteq> [])"
    | (last) "cur_size st > 1" "linked k" "pre \<noteq> []" "post = []"
    | (inner) "cur_size st > 1" "linked k" "pre \<noteq> []" "post \<noteq> []"
    by blast
  then show ?thesis
  proof cases
    case same
    then have "on_hit st (Some a) = Inr ?st1"
      using ma by (cases pre) (auto simp: on_hit_def Let_def heap_ops blk_of_def)
    moreover have "set_ok (map_of (heap ?st1)) (cur_set ?st1) (cur_size ?st1) ?xs"
      using ok by (simp add: st1)
    moreover have "map snd ?xs = a_hit (cur_size st) (map snd pre) k (map snd post)"
      using same by (auto simp: a_hit_def)
    moreover have "frame st ?st1 (fst ` set ?xs)"
      by (simp add: frame_def)
    ultimately show ?thesis
      using st1 by blast
  next
    case last
    from last(3) obtain h0 kh pre' where pre: "pre = (h0, kh) # pre'"
      by (cases pre) auto
    define p where "p = fst (last pre)"
    from r pre last(4) obtain bp bh where mp: "?m p = Some bp" and mh: "?m h0 = Some bh"
      by (cases pre' rule: rev_cases) (auto simp: p_def)
    have pa: "lastp pre None = Some p"
      using last(3) by (simp add: p_def lastp_eq)
    from d pre have neq: "p \<noteq> a" "h0 \<noteq> a"
      by (auto simp: p_def)
    obtain st' where
      res: "move_last ?st1 (Some a) = Inr st'" and
      hp: "map_of (heap st') = ?m
        (p \<mapsto> bp\<lparr>next_ptr := None\<rparr>,
         h0 \<mapsto> (if h0 = p then bp\<lparr>next_ptr := None\<rparr> else bh)\<lparr>prev_ptr := Some a\<rparr>,
         a \<mapsto> (blk_of (lastp pre None) (hdp post None) k)\<lparr>next_ptr := Some h0, prev_ptr := None\<rparr>)" and
      sets': "sets st' = (sets st)[nat (set_index st) := (cur_set st)\<lparr>LRU_tail := Some p, LRU_head := Some a\<rparr>]" and
      rest: "size_arr st' = size_arr st" "set_index st' = set_index st" "counters st' = counters ?st1"
      using move_last_eval [of ?st1 a _ p bp h0 bh] ma mp mh hd pa neq bnd last pre
      by (auto simp: st1 blk_of_def)
    let ?xs' = "(a, k\<lparr>linked := False\<rparr>) # (h0, kh\<lparr>linked := True\<rparr>) # pre'"
    have hit: "on_hit st (Some a) = Inr st'"
      using last ma pa res by (simp add: on_hit_def Let_def heap_ops blk_of_def)
    have rep': "rep (map_of (heap st')) None ?xs' None"
      unfolding hp using rep_move_last [of ?m h0 kh pre' a k p bp bh] r d mp mh ma pre last(4)
      by (simp add: p_def)
    have cs: "cur_set st' = (cur_set st)\<lparr>LRU_tail := Some p, LRU_head := Some a\<rparr>"
      "cur_size st' = cur_size st"
      using bnd by (simp_all add: cur_set_def cur_size_def sets' rest)
    have "set_ok (map_of (heap st')) (cur_set st') (cur_size st') ?xs'"
      using ok last pre rep' d unfolding set_ok_def cs
      by (auto simp: p_def)
    moreover have "map snd ?xs' = a_hit (cur_size st) (map snd pre) k (map snd post)"
      using last pre by (simp add: a_hit_def)
    moreover have "fst ` set ?xs' = fst ` set ?xs"
      using pre last by auto
    moreover have "frame st st' (fst ` set ?xs)"
      using pre last(3) by (auto simp: frame_def hp sets' rest p_def)
    ultimately show ?thesis
      using hit cs rest st1 by (intro exI [of _ st'] exI [of _ ?xs']) simp
  next
    case inner
    from inner(4) obtain n kn post' where post: "post = (n, kn) # post'"
      by (cases post) auto
    from inner(3) obtain pre' p kp where pre: "pre = pre' @ [(p, kp)]"
      by (cases pre rule: rev_cases) auto
    from r pre post obtain bp bn where mp: "?m p = Some bp" and mn: "?m n = Some bn"
      by auto
    from d pre post have neq: "p \<noteq> a" "n \<noteq> a" "p \<noteq> n"
      by auto
    obtain st' where
      res: "move_inner ?st1 (Some a) = Inr st'" and
      hp: "map_of (heap st') = ?m
        (p \<mapsto> bp\<lparr>next_ptr := Some n\<rparr>, n \<mapsto> bn\<lparr>prev_ptr := Some p\<rparr>,
         a \<mapsto> (blk_of (lastp pre None) (hdp post None) k)
               \<lparr>next_ptr := hdp (pre' @ [(p, kp)]) None, prev_ptr := None\<rparr>)" and
      sets': "sets st' = (sets st)[nat (set_index st) := (cur_set st)\<lparr>LRU_head := Some a\<rparr>]" and
      rest: "size_arr st' = size_arr st" "set_index st' = set_index st" "counters st' = counters ?st1"
      using move_inner_eval [of ?st1 a _ p n bp bn] ma mp mn hd neq inner pre post
      by (cases pre') (auto simp: st1 blk_of_def)
    let ?xs' = "(a, k\<lparr>linked := False\<rparr>) # pre' @ (p, kp) # (n, kn\<lparr>linked := True\<rparr>) # post'"
    have hit: "on_hit st (Some a) = Inr st'"
      using inner ma res pre post by (simp add: on_hit_def Let_def heap_ops blk_of_def)
    have r': "rep ?m None (pre' @ (p, kp) # (a, k) # (n, kn) # post') None"
      using r by (simp add: pre post)
    have d': "distinct (map fst (pre' @ (p, kp) # (a, k) # (n, kn) # post'))"
      using d by (simp add: pre post)
    have u': "\<not> linked (snd (hd (pre' @ [(p, kp)])))"
      using u by (cases pre') (simp_all add: pre)
    have rep': "rep (map_of (heap st')) None ?xs' None"
      unfolding hp by (rule rep_move_inner [OF r' d' u' mp mn ma])
    have cs: "cur_set st' = (cur_set st)\<lparr>LRU_head := Some a\<rparr>"
      "cur_size st' = cur_size st"
      using bnd by (simp_all add: cur_set_def cur_size_def sets' rest)
    have "set_ok (map_of (heap st')) (cur_set st') (cur_size st') ?xs'"
      using ok inner pre post rep' d unfolding set_ok_def cs
      by auto
    moreover have "map snd ?xs' = a_hit (cur_size st) (map snd pre) k (map snd post)"
      using inner pre post by (simp add: a_hit_def)
    moreover have "fst ` set ?xs' = fst ` set ?xs"
      using pre post by auto
    moreover have "frame st st' (fst ` set ?xs)"
      using pre post by (auto simp: frame_def hp sets' rest)
    ultimately show ?thesis
      using hit cs rest st1 by (intro exI [of _ st'] exI [of _ ?xs']) simp
  qed
qed

lemma frame_trans:
  "frame st st1 A \<Longrightarrow> frame st1 st2 B \<Longrightarrow> frame st st2 (A \<union> B)"
  by (auto simp: frame_def)

lemma frame_mono: "frame st st' A \<Longrightarrow> A \<subseteq> B \<Longrightarrow> frame st st' B"
  by (auto simp: frame_def)

lemma evict_sim:
  assumes ok: "set_ok (map_of (heap st)) (cur_set st) (cur_size st) xs"
    and nz: "cur_size st \<noteq> 0"
    and bnd: "nat (set_index st) < length (sets st)" "nat (set_index st) < length (size_arr st)"
  shows "if linked (snd (last xs)) then
           \<exists>st'. evict st = Inr st' \<and>
             set_ok (map_of (heap st')) (cur_set st') (cur_size st') (butlast xs) \<and>
             cur_size st' = cur_size st - 1 \<and> cur_size st' \<noteq> 0 \<and>
             frame st st' (fst ` set xs) \<and>
             dom (map_of (heap st')) \<subseteq> dom (map_of (heap st)) \<and>
             counters st' = (hit_count st, miss_count st, eviction_count st + 1)
         else evict st = Inl NullDeref"
proof -
  let ?m = "map_of (heap st)"
  from ok nz have r: "rep ?m None xs None" and d: "distinct (map fst xs)"
    and u: "\<not> linked (snd (hd xs))" and ne: "xs \<noteq> []"
    and tl: "LRU_tail (cur_set st) = Some (fst (last xs))" and sz: "cur_size st = int (length xs)"
    by (simp_all add: set_ok_def)
  show ?thesis
  proof (cases "linked (snd (last xs))")
    case False
    from ne obtain ys l kl where xs: "xs = ys @ [(l, kl)]"
      by (cases xs rule: rev_cases) auto
    with r have ml: "?m l = Some (blk_of (lastp ys None) None kl)"
      by simp
    have "evict st = Inl NullDeref"
      using False xs tl bnd by (intro evict_null [OF _ ml]) (simp_all add: blk_of_def)
    with False show ?thesis by simp
  next
    case True
    with u ne obtain ys p kp l kl where xs: "xs = ys @ [(p, kp), (l, kl)]"
      by (cases xs rule: rev_cases; cases "butlast xs" rule: rev_cases) auto
    from r xs have ml: "?m l = Some (blk_of (Some p) None kl)"
      and mp: "?m p = Some (blk_of (lastp ys None) (Some l) kp)"
      by simp_all
    from d xs have neq: "p \<noteq> l" by simp
    obtain st' where
      res: "evict st = Inr st'" and
      hp: "map_of (heap st') = ?m(l := None, p \<mapsto> (blk_of (lastp ys None) (Some l) kp)\<lparr>next_ptr := None\<rparr>)" and
      sets': "sets st' = (sets st)[nat (set_index st) := (cur_set st)\<lparr>LRU_tail := Some p\<rparr>]" and
      size': "size_arr st' = (size_arr st)[nat (set_index st) := cur_size st - 1]" and
      rest: "set_index st' = set_index st"
        "counters st' = (hit_count st, miss_count st, eviction_count st + 1)"
    proof -
      have tl': "LRU_tail (cur_set st) = Some l"
        using tl by (simp add: xs)
      have pl: "prev_ptr (blk_of (Some p) None kl) = Some p"
        using True by (simp add: xs blk_of_def)
      from evict_eval [OF tl' ml pl mp neq bnd(1)] that show ?thesis
        by blast
    qed
    have cs: "cur_set st' = (cur_set st)\<lparr>LRU_tail := Some p\<rparr>" "cur_size st' = cur_size st - 1"
      using bnd by (simp_all add: cur_set_def cur_size_def sets' size' rest)
    have r': "rep ?m None (ys @ [(p, kp), (l, kl)]) None"
      using r by (simp add: xs)
    have d': "distinct (map fst (ys @ [(p, kp), (l, kl)]))"
      using d by (simp add: xs)
    have rep': "rep (map_of (heap st')) None (ys @ [(p, kp)]) None"
      unfolding hp by (rule rep_evict [OF r' d' mp])
    have "set_ok (map_of (heap st')) (cur_set st') (cur_size st') (butlast xs)"
      using ok nz rep' unfolding set_ok_def cs xs
      by (cases ys) (auto simp: butlast_append)
    moreover have "frame st st' (fst ` set xs)"
      by (auto simp: frame_def hp sets' size' rest xs)
    moreover have "dom (map_of (heap st')) \<subseteq> dom (map_of (heap st))"
      using mp by (auto simp: hp)
    moreover have "cur_size st' \<noteq> 0"
      using sz by (simp add: cs xs)
    ultimately show ?thesis
      using True res cs rest by (simp add: exI [of _ st'])
  qed
qed

lemma insert_sim:
  assumes ok: "set_ok (map_of (heap st)) (cur_set st) (cur_size st) xs"
    and nz: "cur_size st \<noteq> 0"
    and bnd: "nat (set_index st) < length (sets st)" "nat (set_index st) < length (size_arr st)"
    and al: "malloc (heap st) = Some t" "map_of (heap st) t = None"
    and tg: "tg \<notin> atag ` snd ` set xs"
  shows "\<exists>st'. insert_front malloc st tg = Inr st' \<and>
     set_ok (map_of (heap st')) (cur_set st') (cur_size st')
       ((t, \<lparr>atag = tg, avalid = 1, linked = False\<rparr>) #
        (fst (hd xs), (snd (hd xs))\<lparr>linked := True\<rparr>) # tl xs) \<and>
     cur_size st' = cur_size st + 1 \<and>
     frame st st' (insert t (fst ` set xs)) \<and> counters st' = counters st"
proof -
  let ?m = "map_of (heap st)"
  from ok nz have r: "rep ?m None xs None" and d: "distinct (map fst xs)"
    and ne: "xs \<noteq> []" and hd: "LRU_head (cur_set st) = Some (fst (hd xs))"
    and sz: "cur_size st = int (length xs)"
    by (simp_all add: set_ok_def)
  from ne obtain h0 kh rest where xs: "xs = (h0, kh) # rest"
    by (cases xs) auto
  from r xs have mh: "?m h0 = Some (blk_of None (hdp rest None) kh)"
    by simp
  from rep_dom [OF r] al have fresh: "t \<notin> fst ` set xs"
    by auto
  obtain st' where
    res: "insert_front malloc st tg = Inr st'" and
    hp: "map_of (heap st') = ?m
       (h0 \<mapsto> (blk_of None (hdp rest None) kh)\<lparr>prev_ptr := Some t\<rparr>,
        t \<mapsto> \<lparr>tag = tg, valid = 1, next_ptr = Some h0, prev_ptr = None\<rparr>)" and
    sets': "sets st' = (sets st)[nat (set_index st) := (cur_set st)\<lparr>LRU_head := Some t\<rparr>]" and
    size': "size_arr st' = (size_arr st)[nat (set_index st) := cur_size st + 1]" and
    rest: "set_index st' = set_index st" "counters st' = counters st"
    using insert_front_eval [of malloc st t h0 _ tg] al hd mh bnd xs
    by auto
  have cs: "cur_set st' = (cur_set st)\<lparr>LRU_head := Some t\<rparr>" "cur_size st' = cur_size st + 1"
    using bnd by (simp_all add: cur_set_def cur_size_def sets' size' rest)
  have r': "rep ?m None ((h0, kh) # rest) None"
    using r by (simp add: xs)
  have d': "distinct (map fst ((h0, kh) # rest))"
    using d by (simp add: xs)
  have f': "t \<notin> fst ` set ((h0, kh) # rest)"
    using fresh by (simp add: xs)
  have rep': "rep (map_of (heap st')) None
      ((t, \<lparr>atag = tg, avalid = 1, linked = False\<rparr>) # (h0, kh\<lparr>linked := True\<rparr>) # rest) None"
    unfolding hp by (rule rep_insert [OF r' d' f' mh])
  have "set_ok (map_of (heap st')) (cur_set st') (cur_size st')
       ((t, \<lparr>atag = tg, avalid = 1, linked = False\<rparr>) #
        (fst (hd xs), (snd (hd xs))\<lparr>linked := True\<rparr>) # tl xs)"
    using ok nz rep' fresh tg sz unfolding set_ok_def cs xs
    by (auto simp: image_iff)
  moreover have "frame st st' (insert t (fst ` set xs))"
    by (auto simp: frame_def hp sets' size' rest xs)
  ultimately show ?thesis
    using res cs rest by (simp add: exI [of _ st'])
qed

lemma frame_refl: "frame st st A"
  by (simp add: frame_def)

lemma on_miss_sim:
  assumes ok: "set_ok (map_of (heap st)) (cur_set st) (cur_size st) xs"
    and a: "(a, k) \<in> set xs"
    and bnd: "nat (set_index st) < length (sets st)" "nat (set_index st) < length (size_arr st)"
    and good: "good_malloc malloc"
    and tg: "cur_size st \<noteq> 0 \<longrightarrow> tg \<notin> atag ` snd ` set xs"
  shows "case a_miss E (cur_size st) tg k (map snd xs) of
           Inl e \<Rightarrow> on_miss E malloc st (Some a) tg = Inl e
         | Inr (sz', bs', ev) \<Rightarrow>
             \<exists>st' xs'. on_miss E malloc st (Some a) tg = Inr st' \<and>
               set_ok (map_of (heap st')) (cur_set st') (cur_size st') xs' \<and>
               map snd xs' = bs' \<and> cur_size st' = sz' \<and>
               frame st st' (fst ` set xs \<union> - dom (map_of (heap st))) \<and>
               fst ` set xs' \<subseteq> fst ` set xs \<union> - dom (map_of (heap st)) \<and>
               counters st' = (hit_count st, miss_count st + 1, eviction_count st + ev)"
proof (cases "cur_size st = 0")
  case True
  with ok a have xs: "xs = [(a, k)]" and r: "rep (map_of (heap st)) None xs None"
    and v: "\<not> linked k"
    by (cases xs; auto simp: set_ok_def)+
  then have ma: "map_of (heap st) a = Some (blk_of None None k)"
    by simp
  from fill_empty_eval [OF ma bnd(1), of tg] obtain st' where
    res: "fill_empty st (Some a) tg = Inr st'" and
    hp: "map_of (heap st') = (map_of (heap st))(a \<mapsto> (blk_of None None k)\<lparr>tag := tg, valid := 1\<rparr>)" and
    sets': "sets st' = (sets st)[nat (set_index st) := (cur_set st)\<lparr>LRU_head := Some a, LRU_tail := Some a\<rparr>]" and
    size': "size_arr st' = (size_arr st)[nat (set_index st) := cur_size st + 1]" and
    rest: "set_index st' = set_index st" "counters st' = counters st"
    by blast
  let ?st2 = "st'\<lparr>miss_count := miss_count st' + 1\<rparr>"
  let ?xs' = "[(a, k\<lparr>atag := tg, avalid := 1\<rparr>)]"
  have miss: "on_miss E malloc st (Some a) tg = Inr ?st2"
    using True res by (simp add: on_miss_def bind_e_def)
  have cs: "cur_set ?st2 = (cur_set st)\<lparr>LRU_head := Some a, LRU_tail := Some a\<rparr>" "cur_size ?st2 = 1"
    using bnd True by (simp_all add: cur_set_def cur_size_def sets' size' rest)
  have "set_ok (map_of (heap ?st2)) (cur_set ?st2) (cur_size ?st2) ?xs'"
    unfolding set_ok_def cs using v by (simp add: hp blk_of_def)
  moreover have "frame st ?st2 (fst ` set xs \<union> - dom (map_of (heap st)))"
    by (auto simp: frame_def hp sets' size' rest xs)
  moreover have "counters ?st2 = (hit_count st, miss_count st + 1, eviction_count st + 0)"
    using rest by (simp add: counters_def)
  ultimately show ?thesis
    using True miss cs xs
    by (simp add: a_miss_def) (intro exI [of _ ?st2] exI [of _ ?xs'], simp)
next
  case nz: False
  with tg have tg': "tg \<notin> atag ` snd ` set xs" by simp
  from ok have ne: "xs \<noteq> []" and r: "rep (map_of (heap st)) None xs None"
    by (simp_all add: set_ok_def)
  have last_map: "last (map snd xs) = snd (last xs)"
    using ne by (simp add: last_map)
  consider (keep) "\<not> cur_size st \<ge> E"
    | (null) "cur_size st \<ge> E" "\<not> linked (snd (last xs))"
    | (evict) "cur_size st \<ge> E" "linked (snd (last xs))"
    by blast
  then show ?thesis
  proof cases
    case null
    with evict_sim [OF ok nz bnd] have "evict st = Inl NullDeref"
      by simp
    with null nz show ?thesis
      by (simp add: a_miss_def a_evict_def on_miss_def bind_e_def last_map)
  next
    case keep
    from good obtain t where al: "malloc (heap st) = Some t" "map_of (heap st) t = None"
      unfolding good_malloc_def by blast
    let ?xs' = "(t, \<lparr>atag = tg, avalid = 1, linked = False\<rparr>) #
        (fst (hd xs), (snd (hd xs))\<lparr>linked := True\<rparr>) # tl xs"
    from insert_sim [where malloc = malloc, OF ok nz bnd al tg'] obtain st' where
      res: "insert_front malloc st tg = Inr st'" and
      ok': "set_ok (map_of (heap st')) (cur_set st') (cur_size st') ?xs'" and
      sz': "cur_size st' = cur_size st + 1" and
      fr: "frame st st' (insert t (fst ` set xs))" and
      sm: "counters st' = counters st"
      by blast
    let ?st2 = "st'\<lparr>miss_count := miss_count st' + 1\<rparr>"
    have miss: "on_miss E malloc st (Some a) tg = Inr ?st2"
      using nz keep res by (simp add: on_miss_def bind_e_def)
    have st2: "heap ?st2 = heap st'" "cur_set ?st2 = cur_set st'" "cur_size ?st2 = cur_size st'"
      by (simp_all add: cur_set_def cur_size_def)
    have "insert t (fst ` set xs) \<subseteq> fst ` set xs \<union> - dom (map_of (heap st))"
      using al by (auto simp: dom_def)
    from frame_mono [OF fr this]
    have "frame st ?st2 (fst ` set xs \<union> - dom (map_of (heap st)))"
      by (simp add: frame_def)
    moreover have "fst ` set ?xs' \<subseteq> fst ` set xs \<union> - dom (map_of (heap st))"
      using al ne by (cases xs) (auto simp: dom_def)
    moreover have "counters ?st2 = (hit_count st, miss_count st + 1, eviction_count st + 0)"
      using sm by (simp add: counters_def)
    moreover have "map snd ?xs' = a_insert tg (map snd xs)"
      using ne by (cases xs) (simp_all add: a_insert_def)
    ultimately show ?thesis
      using nz keep miss ok' sz'
      by (simp add: a_miss_def a_evict_def bind_e_def del: list.map)
         (intro exI [of _ ?st2] exI [of _ ?xs'], simp add: st2)
  next
    case evict
    with evict_sim [OF ok nz bnd] obtain st1 where
      res1: "evict st = Inr st1" and
      ok1: "set_ok (map_of (heap st1)) (cur_set st1) (cur_size st1) (butlast xs)" and
      sz1: "cur_size st1 = cur_size st - 1" and nz1: "cur_size st1 \<noteq> 0" and
      fr1: "frame st st1 (fst ` set xs)" and
      dom1: "dom (map_of (heap st1)) \<subseteq> dom (map_of (heap st))" and
      sm1: "counters st1 = (hit_count st, miss_count st, eviction_count st + 1)"
      by auto
    from fr1 bnd have bnd1: "nat (set_index st1) < length (sets st1)"
      "nat (set_index st1) < length (size_arr st1)"
      by (simp_all add: frame_def)
    from good obtain t where al: "malloc (heap st1) = Some t" "map_of (heap st1) t = None"
      unfolding good_malloc_def by blast
    have tg1: "tg \<notin> atag ` snd ` set (butlast xs)"
      using tg' by (auto dest: in_set_butlastD)
    let ?ys = "butlast xs"
    let ?xs' = "(t, \<lparr>atag = tg, avalid = 1, linked = False\<rparr>) #
        (fst (hd ?ys), (snd (hd ?ys))\<lparr>linked := True\<rparr>) # tl ?ys"
    from insert_sim [where malloc = malloc, OF ok1 nz1 bnd1 al tg1] obtain st' where
      res: "insert_front malloc st1 tg = Inr st'" and
      ok': "set_ok (map_of (heap st')) (cur_set st') (cur_size st') ?xs'" and
      sz': "cur_size st' = cur_size st1 + 1" and
      fr: "frame st1 st' (insert t (fst ` set ?ys))" and
      sm: "counters st' = counters st1"
      by blast
    let ?st2 = "st'\<lparr>miss_count := miss_count st' + 1\<rparr>"
    have miss: "on_miss E malloc st (Some a) tg = Inr ?st2"
      using nz evict res1 res by (simp add: on_miss_def bind_e_def)
    have st2: "heap ?st2 = heap st'" "cur_set ?st2 = cur_set st'" "cur_size ?st2 = cur_size st'"
      by (simp_all add: cur_set_def cur_size_def)
    from ok1 have ne1: "?ys \<noteq> []"
      by (simp add: set_ok_def)
    have sub: "fst ` set ?ys \<subseteq> fst ` set xs"
      by (auto dest: in_set_butlastD)
    have tin: "t \<in> fst ` set xs \<union> - dom (map_of (heap st))"
    proof (cases "t \<in> fst ` set xs")
      case False
      with fr1 have "map_of (heap st1) t = map_of (heap st) t"
        by (simp add: frame_def)
      with al show ?thesis by (auto simp: dom_def)
    qed simp
    have "fst ` set xs \<union> insert t (fst ` set ?ys) \<subseteq> fst ` set xs \<union> - dom (map_of (heap st))"
      using tin sub by auto
    from frame_mono [OF frame_trans [OF fr1 fr] this]
    have "frame st ?st2 (fst ` set xs \<union> - dom (map_of (heap st)))"
      by (simp add: frame_def)
    moreover have "fst ` set ?xs' \<subseteq> fst ` set xs \<union> - dom (map_of (heap st))"
      using tin sub ne1 by (cases ?ys) auto
    moreover have "counters ?st2 = (hit_count st, miss_count st + 1, eviction_count st + 1)"
      using sm sm1 by (simp add: counters_def)
    moreover have "map snd ?xs' = a_insert tg (butlast (map snd xs))"
    proof -
      have "map snd ?xs' = a_insert tg (map snd ?ys)"
        using ne1 by (cases ?ys) (simp_all add: a_insert_def)
      then show ?thesis
        by (simp only: map_butlast)
    qed
    ultimately show ?thesis
      using nz evict miss ok' sz' sz1
      by (simp add: a_miss_def a_evict_def bind_e_def last_map del: list.map)
         (intro exI [of _ ?st2] exI [of _ ?xs'], simp add: st2)
  qed
qed

lemma set_ok_cong:
  "(\<And>a. a \<in> fst ` set xs \<Longrightarrow> m' a = m a) \<Longrightarrow> set_ok m' cs sz xs \<longleftrightarrow> set_ok m cs sz xs"
  unfolding set_ok_def using rep_cong_on [of xs m' m None None] by simp

lemma set_ok_dom: "set_ok m cs sz xs \<Longrightarrow> fst ` set xs \<subseteq> dom m"
  unfolding set_ok_def using rep_dom by blast

lemma wf_step:
  assumes inv: "wf_state st X" and i: "i < length X"
    and st0: "heap st0 = heap st" "sets st0 = sets st" "size_arr st0 = size_arr st"
      "nat (set_index st0) = i"
    and fr: "frame st0 st' (fst ` set (X ! i) \<union> - dom (map_of (heap st)))"
    and ok: "set_ok (map_of (heap st')) (sets st' ! i) (size_arr st' ! i) xs'"
    and sub: "fst ` set xs' \<subseteq> fst ` set (X ! i) \<union> - dom (map_of (heap st))"
  shows "wf_state st' (X[i := xs'])"
  unfolding wf_state_def
proof (intro conjI allI impI)
  show "length (sets st') = length (X[i := xs'])" "length (size_arr st') = length (X[i := xs'])"
    using inv fr st0 by (simp_all add: wf_state_def frame_def)
next
  fix j assume j: "j < length (X[i := xs'])"
  show "set_ok (map_of (heap st')) (sets st' ! j) (size_arr st' ! j) (X[i := xs'] ! j)"
  proof (cases "j = i")
    case True
    with ok i show ?thesis by simp
  next
    case False
    from inv j have okj: "set_ok (map_of (heap st)) (sets st ! j) (size_arr st ! j) (X ! j)"
      by (simp add: wf_state_def)
    from inv i j False have dis: "fst ` set (X ! i) \<inter> fst ` set (X ! j) = {}"
      by (simp add: wf_state_def)
    have "map_of (heap st') a = map_of (heap st) a" if "a \<in> fst ` set (X ! j)" for a
    proof -
      from set_ok_dom [OF okj] that have "a \<in> dom (map_of (heap st))" by blast
      with dis that have "a \<notin> fst ` set (X ! i) \<union> - dom (map_of (heap st))" by blast
      with fr st0 show ?thesis by (simp add: frame_def)
    qed
    then have "set_ok (map_of (heap st')) (sets st ! j) (size_arr st ! j) (X ! j)"
      using okj set_ok_cong [of "X ! j" "map_of (heap st')" "map_of (heap st)"] by blast
    with False fr st0 show ?thesis
      by (simp add: frame_def)
  qed
next
  fix j k assume jk: "j < length (X[i := xs'])" "k < length (X[i := xs'])" "j \<noteq> k"
  have *: "fst ` set xs' \<inter> fst ` set (X ! l) = {}" if "l < length X" "l \<noteq> i" for l
  proof -
    from inv that have "set_ok (map_of (heap st)) (sets st ! l) (size_arr st ! l) (X ! l)"
      by (simp add: wf_state_def)
    from set_ok_dom [OF this] have "fst ` set (X ! l) \<subseteq> dom (map_of (heap st))" .
    moreover from inv i that have "fst ` set (X ! i) \<inter> fst ` set (X ! l) = {}"
      by (simp add: wf_state_def)
    ultimately show ?thesis using sub by blast
  qed
  show "fst ` set (X[i := xs'] ! j) \<inter> fst ` set (X[i := xs'] ! k) = {}"
  proof (cases "j = i")
    case True
    with jk i * [of k] show ?thesis by simp
  next
    case False
    show ?thesis
    proof (cases "k = i")
      case True
      with jk i False * [of j] show ?thesis by (simp add: Int_commute)
    next
      case ki: False
      with False jk inv show ?thesis by (simp add: wf_state_def)
    qed
  qed
qed

lemma frame_size:
  assumes "frame st0 st' A"
  shows "size_arr st' = (size_arr st0)[nat (set_index st0) := cur_size st']"
proof (rule nth_equalityI)
  show "length (size_arr st') = length ((size_arr st0)[nat (set_index st0) := cur_size st'])"
    using assms by (simp add: frame_def)
next
  fix j assume "j < length (size_arr st')"
  with assms show "size_arr st' ! j = (size_arr st0)[nat (set_index st0) := cur_size st'] ! j"
    by (cases "j = nat (set_index st0)") (simp_all add: frame_def cur_size_def)
qed

lemma frame_cur_set: "frame st0 st' A \<Longrightarrow> cur_set st' = sets st' ! nat (set_index st0)"
  by (simp add: frame_def cur_set_def)

lemma frame_cur_size: "frame st0 st' A \<Longrightarrow> cur_size st' = size_arr st' ! nat (set_index st0)"
  by (simp add: frame_def cur_size_def)

lemma accessData_sim:
  assumes inv: "wf_state st X" and good: "good_malloc malloc"
  shows "case a_access s E b (abs_of st X) addr of
           Inl e \<Rightarrow> accessData s E b malloc st addr = Some (Inl e)
         | Inr A' \<Rightarrow>
             \<exists>st' xs'. accessData s E b malloc st addr = Some (Inr st') \<and>
               wf_state st' (X[nat (set_index_of s b addr) := xs']) \<and>
               abs_of st' (X[nat (set_index_of s b addr) := xs']) = A' \<and>
               (\<forall>j. j \<noteq> nat (set_index_of s b addr) \<longrightarrow>
                  sets st' ! j = sets st ! j \<and> size_arr st' ! j = size_arr st ! j)"
proof -
  let ?si = "set_index_of s b addr"
  let ?tg = "tag_of s b addr"
  let ?i = "nat ?si"
  let ?st0 = "st\<lparr>set_index := ?si\<rparr>"
  let ?A = "abs_of st X"
  from inv have len: "length (sets st) = length X" "length (size_arr st) = length X"
    by (simp_all add: wf_state_def)
  consider (shift) "31 \<le> s \<or> 64 \<le> s + b"
    | (oob) "\<not> (31 \<le> s \<or> 64 \<le> s + b)" "\<not> (0 \<le> ?si \<and> ?i < length X)"
    | (ok) "\<not> (31 \<le> s \<or> 64 \<le> s + b)" "0 \<le> ?si" "?i < length X"
    by blast
  then show ?thesis
  proof cases
    case shift
    then show ?thesis
      by (simp add: a_access_def accessData_def)
  next
    case oob
    then show ?thesis
      using len by (auto simp: a_access_def accessData_def Let_def abs_of_def)
  next
    case ok
    let ?xs = "X ! ?i"
    have st0: "heap ?st0 = heap st" "sets ?st0 = sets st" "size_arr ?st0 = size_arr st"
      "nat (set_index ?st0) = ?i" "cur_set ?st0 = sets st ! ?i" "cur_size ?st0 = size_arr st ! ?i"
      "counters ?st0 = counters st" "hit_count ?st0 = hit_count st" "miss_count ?st0 = miss_count st"
      "eviction_count ?st0 = eviction_count st"
      by (simp_all add: cur_set_def cur_size_def counters_def)
    from inv ok have ok0: "set_ok (map_of (heap ?st0)) (cur_set ?st0) (cur_size ?st0) ?xs"
      by (simp add: wf_state_def cur_set_def cur_size_def)
    then have ne: "?xs \<noteq> []" and r: "rep (map_of (heap st)) None ?xs None"
      and hd: "LRU_head (sets st ! ?i) = Some (fst (hd ?xs))"
      by (simp_all add: set_ok_def cur_set_def)
    from split_scan_Some [OF ne, of "\<lambda>x. atag (snd x) \<noteq> ?tg"]
    obtain pre c post where
      sp: "split_scan (\<lambda>x. atag (snd x) \<noteq> ?tg) ?xs = Some (pre, c, post)" and
      xs: "?xs = pre @ c # post" and
      pre: "\<forall>x\<in>set pre. atag (snd x) \<noteq> ?tg" and post: "post \<noteq> [] \<longrightarrow> atag (snd c) = ?tg"
      by blast
    obtain a k where c: "c = (a, k)" by (cases c)
    have asp: "split_scan (\<lambda>k. atag k \<noteq> ?tg) (map snd ?xs) = Some (map snd pre, k, map snd post)"
      using sp c by (simp add: split_scan_map comp_def)
    have hd': "LRU_head (sets st ! ?i) = hdp (pre @ [c]) None"
      using hd xs by (cases pre) simp_all
    have sc: "scan (heap st) ?tg (LRU_head (sets st ! ?i)) = Some (Inr (Some a))"
      unfolding hd' using scan_rep [of "heap st" None pre c post ?tg] r xs pre post c
      by simp
    from r xs c have ma: "map_of (heap st) a = Some (blk_of (lastp pre None) (hdp post None) k)"
      by simp
    have bnd: "nat (set_index ?st0) < length (sets ?st0)"
      "nat (set_index ?st0) < length (size_arr ?st0)"
      using ok len by simp_all
    have acc: "accessData s E b malloc st addr =
        Some (if atag k = ?tg \<and> avalid k = 1 then on_hit ?st0 (Some a)
              else on_miss E malloc ?st0 (Some a) ?tg)"
      using ok len sc ma
      by (simp add: accessData_def Let_def cur_set_def bind_r_def bind_e_def load_def blk_of_def)
    obtain h m e where cnt: "counters st = (h, m, e)"
      by (cases "counters st")
    have aacc: "a_access s E b ?A addr =
        (if atag k = ?tg \<and> avalid k = 1 then
           Inr (?A\<lparr>asets := (asets ?A)[?i := a_hit (size_arr st ! ?i) (map snd pre) k (map snd post)],
                   acount := (h + 1, m, e)\<rparr>)
         else
           bind_e (a_miss E (size_arr st ! ?i) ?tg k (map snd ?xs)) (\<lambda>(sz', bs', ev).
           Inr (?A\<lparr>asets := (asets ?A)[?i := bs'], asizes := (asizes ?A)[?i := sz'],
                   acount := (h, m + 1, e + ev)\<rparr>)))"
      using ok len asp cnt by (simp add: a_access_def Let_def abs_of_def)
    show ?thesis
    proof (cases "atag k = ?tg \<and> avalid k = 1")
      case True
      from on_hit_sim [of ?st0 pre a k post] ok0 xs c bnd obtain st' xs' where
        res: "on_hit ?st0 (Some a) = Inr st'" and
        ok': "set_ok (map_of (heap st')) (cur_set st') (cur_size st') xs'" and
        bs': "map snd xs' = a_hit (cur_size ?st0) (map snd pre) k (map snd post)" and
        sub: "fst ` set xs' = fst ` set ?xs" and
        fr: "frame ?st0 st' (fst ` set ?xs)" and
        sz': "cur_size st' = cur_size ?st0" and
        sm: "counters st' = (hit_count ?st0 + 1, miss_count ?st0, eviction_count ?st0)"
        by auto
      have fr': "frame ?st0 st' (fst ` set ?xs \<union> - dom (map_of (heap st)))"
        by (rule frame_mono [OF fr]) simp
      have ok'': "set_ok (map_of (heap st')) (sets st' ! ?i) (size_arr st' ! ?i) xs'"
        using ok' frame_cur_set [OF fr] frame_cur_size [OF fr] by (simp add: st0)
      have wf': "wf_state st' (X[?i := xs'])"
        by (rule wf_step [OF inv ok(3) st0(1-4) fr' ok'']) (simp add: sub)
      have sizes: "size_arr st' = size_arr st"
        using frame_size [OF fr] sz' by (simp add: st0)
      have "abs_of st' (X[?i := xs']) =
          ?A\<lparr>asets := (asets ?A)[?i := a_hit (size_arr st ! ?i) (map snd pre) k (map snd post)],
              acount := (h + 1, m, e)\<rparr>"
        using cnt sm bs' sizes by (simp add: abs_of_def map_update st0 counters_def)
      moreover have "\<forall>j. j \<noteq> ?i \<longrightarrow> sets st' ! j = sets st ! j \<and> size_arr st' ! j = size_arr st ! j"
        using fr by (simp add: frame_def)
      moreover have "accessData s E b malloc st addr = Some (on_hit ?st0 (Some a))"
        using acc True by simp
      moreover have "a_access s E b ?A addr =
           Inr (?A\<lparr>asets := (asets ?A)[?i := a_hit (size_arr st ! ?i) (map snd pre) k (map snd post)],
                   acount := (h + 1, m, e)\<rparr>)"
        using aacc True by simp
      ultimately show ?thesis
        using res wf'
        by (simp del: list_update_overwrite) (intro exI [of _ xs'], simp)
    next
      case False
      have tgx: "cur_size ?st0 \<noteq> 0 \<longrightarrow> ?tg \<notin> atag ` snd ` set ?xs"
      proof
        assume "cur_size ?st0 \<noteq> 0"
        with ok0 have "\<forall>x\<in>set ?xs. avalid (snd x) = 1"
          by (simp add: set_ok_def)
        with xs c False have "atag k \<noteq> ?tg"
          by (metis in_set_conv_decomp snd_conv)
        with post c have "post = []" by auto
        with xs pre c \<open>atag k \<noteq> ?tg\<close> show "?tg \<notin> atag ` snd ` set ?xs"
          by auto
      qed
      have ain: "(a, k) \<in> set ?xs"
        using xs c by simp
      note sim = on_miss_sim [OF ok0 ain bnd good tgx, of E]
      have acc': "accessData s E b malloc st addr = Some (on_miss E malloc ?st0 (Some a) ?tg)"
        using acc by (simp only: False if_False)
      have aacc': "a_access s E b ?A addr =
           bind_e (a_miss E (size_arr st ! ?i) ?tg k (map snd ?xs)) (\<lambda>(sz', bs', ev).
           Inr (?A\<lparr>asets := (asets ?A)[?i := bs'], asizes := (asizes ?A)[?i := sz'],
                   acount := (h, m + 1, e + ev)\<rparr>))"
        using aacc by (simp only: False if_False)
      show ?thesis
      proof (cases "a_miss E (size_arr st ! ?i) ?tg k (map snd ?xs)")
        case (Inl err)
        with sim have "on_miss E malloc ?st0 (Some a) ?tg = Inl err"
          by (simp add: st0)
        with acc' aacc' Inl show ?thesis
          by (simp add: bind_e_def)
      next
        case (Inr res)
        obtain sz' bs' ev where res: "res = (sz', bs', ev)"
          by (cases res)
        with sim Inr obtain st' xs' where
          run: "on_miss E malloc ?st0 (Some a) ?tg = Inr st'" and
          ok': "set_ok (map_of (heap st')) (cur_set st') (cur_size st') xs'" and
          bs': "map snd xs' = bs'" and sz': "cur_size st' = sz'" and
          fr: "frame ?st0 st' (fst ` set ?xs \<union> - dom (map_of (heap st)))" and
          sub: "fst ` set xs' \<subseteq> fst ` set ?xs \<union> - dom (map_of (heap st))" and
          sm: "counters st' = (hit_count st, miss_count st + 1, eviction_count st + ev)"
          by (auto simp: st0)
        have ok'': "set_ok (map_of (heap st')) (sets st' ! ?i) (size_arr st' ! ?i) xs'"
          using ok' frame_cur_set [OF fr] frame_cur_size [OF fr] by (simp add: st0)
        have wf': "wf_state st' (X[?i := xs'])"
          by (rule wf_step [OF inv ok(3) st0(1-4) fr ok'' sub])
        have sizes: "size_arr st' = (size_arr st)[?i := sz']"
          using frame_size [OF fr] sz' by (simp add: st0)
        have "abs_of st' (X[?i := xs']) =
            ?A\<lparr>asets := (asets ?A)[?i := bs'], asizes := (asizes ?A)[?i := sz'],
                acount := (h, m + 1, e + ev)\<rparr>"
          using cnt sm bs' sizes by (simp add: abs_of_def map_update counters_def)
        moreover have "\<forall>j. j \<noteq> ?i \<longrightarrow> sets st' ! j = sets st ! j \<and> size_arr st' ! j = size_arr st ! j"
          using fr by (simp add: frame_def)
        ultimately show ?thesis
          using acc' aacc' run wf' Inr res
          by (simp add: bind_e_def del: list_update_overwrite) (intro exI [of _ xs'], simp)
      qed
    qed
  qed
qed

lemma refines_access:
  assumes "wf_state st X" "good_malloc malloc"
  shows "refines (accessData s E b malloc st addr) (a_access s E b (abs_of st X) addr)"
  using accessData_sim [OF assms, of s E b addr]
  unfolding refines_def by (auto split: sum.splits)

lemma refines_bind:
  assumes c: "refines c a"
    and f: "\<And>st X. wf_state st X \<Longrightarrow> refines (f st) (g (abs_of st X))"
  shows "refines (bind_r c f) (bind_e a g)"
proof (cases a)
  case (Inl e)
  with c show ?thesis
    by (simp add: refines_def bind_r_def bind_e_def)
next
  case (Inr A)
  with c obtain st X where "c = Some (Inr st)" "wf_state st X" "abs_of st X = A"
    by (auto simp: refines_def)
  with f [of st X] Inr show ?thesis
    by (simp add: bind_r_def bind_e_def)
qed

lemma refines_replay:
  assumes "wf_state st X" and good: "good_malloc malloc"
  shows "refines (replayTrace s E b malloc recs st) (a_replay s E b recs (abs_of st X))"
  using assms(1)
proof (induction recs arbitrary: st X)
  case Nil
  then show ?case by (auto simp: refines_def)
next
  case (Cons r recs)
  obtain c addr where r: "r = (c, addr)" by (cases r)
  have step: "refines (replayTrace s E b malloc recs st) (a_replay s E b recs (abs_of st X))"
    if "wf_state st X" for st X
    using that by (rule Cons.IH)
  show ?case
    using Cons.prems good
    by (auto simp: r intro!: refines_bind refines_access step)
qed

lemma init_set_eval:
  assumes "malloc (heap st) = Some t" "map_of (heap st) t = None" "i < length (sets st)"
  shows "\<exists>st'. init_set malloc i st = Inr st' \<and>
     map_of (heap st') = (map_of (heap st))(t \<mapsto> blk_of None None sentinel) \<and>
     sets st' = (sets st)[i := (sets st ! i)\<lparr>LRU_head := Some t\<rparr>] \<and>
     size_arr st' = size_arr st \<and> counters st' = counters st"
  using assms
  by (simp add: init_set_def new_block_def heap_ops Let_def uninit_block_def blk_of_def sentinel_def)

lemma init_set_inv:
  assumes inv: "init_inv as st" and lt: "length as < length (sets st)"
    and good: "good_malloc malloc"
  shows "\<exists>st' t. init_set malloc (length as) st = Inr st' \<and> init_inv (as @ [t]) st' \<and>
     length (sets st') = length (sets st) \<and> counters st' = counters st"
proof -
  from good obtain t where al: "malloc (heap st) = Some t" "map_of (heap st) t = None"
    unfolding good_malloc_def by blast
  from init_set_eval [where malloc = malloc, OF al lt] obtain st' where
    res: "init_set malloc (length as) st = Inr st'" and
    hp: "map_of (heap st') = (map_of (heap st))(t \<mapsto> blk_of None None sentinel)" and
    sets': "sets st' = (sets st)[length as := (sets st ! length as)\<lparr>LRU_head := Some t\<rparr>]" and
    rest: "size_arr st' = size_arr st" "counters st' = counters st"
    by blast
  from inv al have fresh: "t \<notin> set as"
    by (auto simp: init_inv_def in_set_conv_nth)
  have "init_inv (as @ [t]) st'"
    unfolding init_inv_def
  proof (intro conjI allI impI)
    fix i assume i: "i < length (as @ [t])"
    show "LRU_head (sets st' ! i) = Some ((as @ [t]) ! i)"
      using i inv lt by (cases "i = length as") (auto simp: sets' init_inv_def nth_append)
    show "map_of (heap st') ((as @ [t]) ! i) = Some (blk_of None None sentinel)"
      using i inv fresh by (cases "i = length as") (auto simp: hp init_inv_def nth_append)
  qed (use inv lt fresh in \<open>auto simp: init_inv_def sets' rest\<close>)
  with res rest sets' show ?thesis
    by auto
qed

lemma init_loop_inv:
  assumes "init_inv as st" and "good_malloc malloc"
    and "n = length (sets st)"
  shows "\<exists>st' as'. init_loop malloc [length as..<n] st = Inr st' \<and> init_inv as' st' \<and>
     length as' = n \<and> length (sets st') = n \<and> counters st' = counters st"
  using assms
proof (induction "n - length as" arbitrary: as st)
  case 0
  then have "length as = n"
    by (simp add: init_inv_def)
  with 0 show ?case
    by auto
next
  case (Suc d)
  then have lt: "length as < length (sets st)"
    by simp
  from init_set_inv [OF Suc.prems(1) lt Suc.prems(2)] obtain st1 t where
    res: "init_set malloc (length as) st = Inr st1" and inv1: "init_inv (as @ [t]) st1" and
    len1: "length (sets st1) = length (sets st)" and sm1: "counters st1 = counters st"
    by blast
  from Suc.hyps(2) have d: "d = n - length (as @ [t])"
    by simp
  from Suc.hyps(1) [OF d inv1 Suc.prems(2)] len1 Suc.prems(3) obtain st' as' where
    "init_loop malloc [length (as @ [t])..<n] st1 = Inr st'" "init_inv as' st'"
    "length as' = n" "length (sets st') = n" "counters st' = counters st1"
    by auto
  moreover have "[length as..<n] = length as # [length (as @ [t])..<n]"
    using lt Suc.prems(3) by (simp add: upt_conv_Cons)
  ultimately show ?case
    using res sm1 by (auto simp: bind_e_def)
qed

lemma init_inv_wf:
  assumes inv: "init_inv as st" and len: "length as = length (sets st)"
  shows "wf_state st (map (\<lambda>a. [(a, sentinel)]) as)"
    and "abs_of st (map (\<lambda>a. [(a, sentinel)]) as) =
      \<lparr>asets = replicate (length as) [sentinel], asizes = replicate (length as) 0,
       acount = counters st\<rparr>"
proof -
  from inv len have sz: "size_arr st = replicate (length as) 0"
    by (metis init_inv_def replicate_length_same)
  show "wf_state st (map (\<lambda>a. [(a, sentinel)]) as)"
    using inv len unfolding wf_state_def init_inv_def
    by (auto simp: set_ok_def sentinel_def nth_eq_iff_index_eq sz)
  show "abs_of st (map (\<lambda>a. [(a, sentinel)]) as) =
      \<lparr>asets = replicate (length as) [sentinel], asizes = replicate (length as) 0,
       acount = counters st\<rparr>"
    by (simp add: abs_of_def sz comp_def map_replicate_const)
qed

lemma main_init_refines:
  assumes good: "good_malloc malloc"
  shows "\<exists>st X. main_init s malloc junk = Inr st \<and> wf_state st X \<and> abs_of st X = a_init s \<and>
     length X = 2 ^ s"
proof -
  let ?st0 = "\<lparr>heap = [], sets = map junk [0..<2 ^ s], size_arr = replicate (2 ^ s) 0,
        set_index = 0, miss_count = 0, hit_count = 0, eviction_count = 0\<rparr>"
  have inv0: "init_inv [] ?st0"
    by (simp add: init_inv_def)
  from init_loop_inv [OF inv0 good, of "2 ^ s"] obtain st as where
    res: "init_loop malloc [0..<2 ^ s] ?st0 = Inr st" and inv: "init_inv as st" and
    len: "length as = 2 ^ s" "length (sets st) = 2 ^ s" and sm: "counters st = counters ?st0"
    by auto
  from init_inv_wf [OF inv] len sm res show ?thesis
    by (intro exI [of _ st] exI [of _ "map (\<lambda>a. [(a, sentinel)]) as"])
       (simp add: main_init_def a_init_def counters_def)
qed

lemma walk_rep:
  "rep (map_of h) pr xs None \<Longrightarrow> length xs \<le> n \<Longrightarrow> walk n h (hdp xs None) = cblocks pr xs"
proof (induction xs arbitrary: pr n)
  case Nil
  then show ?case by (cases n) simp_all
next
  case (Cons x xs)
  then obtain n' where n: "n = Suc n'" by (cases n) auto
  with Cons show ?case by (simp add: blk_of_def)
qed

lemma cblocks_tag [simp]: "map tag (cblocks pr xs) = map (atag \<circ> snd) xs"
  by (induction xs arbitrary: pr) (simp_all add: blk_of_def)

lemma cblocks_length [simp]: "length (cblocks pr xs) = length xs"
  by (induction xs arbitrary: pr) simp_all

lemma cblocks_valid [simp]: "map valid (cblocks pr xs) = map (avalid \<circ> snd) xs"
  by (induction xs arbitrary: pr) (simp_all add: blk_of_def)

lemma rep_length:
  assumes "rep (map_of h) pr xs nx" "distinct (map fst xs)"
  shows "length xs \<le> length h"
proof -
  from rep_dom [OF assms(1)] have "fst ` set xs \<subseteq> fst ` set h"
    by (simp add: dom_map_of_conv_image_fst)
  then have "card (fst ` set xs) \<le> card (fst ` set h)"
    by (intro card_mono) simp_all
  also have "\<dots> \<le> length h"
    by (metis card_image_le card_length le_trans List.finite_set)
  finally show ?thesis
    using distinct_card [OF assms(2)] by simp
qed

lemma blocks_of_wf:
  assumes "wf_state st X" "i < length X"
  shows "blocks_of st i = cblocks None (X ! i)"
proof -
  from assms have ok: "set_ok (map_of (heap st)) (sets st ! i) (size_arr st ! i) (X ! i)"
    by (simp add: wf_state_def)
  then have r: "rep (map_of (heap st)) None (X ! i) None" and d: "distinct (map fst (X ! i))"
    and hd: "LRU_head (sets st ! i) = hdp (X ! i) None"
    by (cases "X ! i"; simp add: set_ok_def)+
  from walk_rep [OF r rep_length [OF r d]] hd show ?thesis
    by (simp add: blocks_of_def)
qed

lemma filter_all: "(\<forall>x\<in>set xs. P x) \<Longrightarrow> filter P xs = xs"
  by (induction xs) auto

lemma valid_blocks_wf:
  assumes "wf_state st X" "i < length X"
  shows "int (length (valid_blocks st i)) = size_arr st ! i"
    and "distinct (map tag (valid_blocks st i))"
proof -
  from assms have ok: "set_ok (map_of (heap st)) (sets st ! i) (size_arr st ! i) (X ! i)"
    by (simp add: wf_state_def)
  have b: "blocks_of st i = cblocks None (X ! i)"
    by (rule blocks_of_wf [OF assms])
  show "int (length (valid_blocks st i)) = size_arr st ! i"
  proof (cases "size_arr st ! i = 0")
    case True
    with ok obtain x where "X ! i = [x]" "avalid (snd x) = 0"
      by (cases "X ! i") (auto simp: set_ok_def)
    with True b show ?thesis
      by (simp add: valid_blocks_def blk_of_def)
  next
    case False
    with ok have v: "\<forall>x\<in>set (X ! i). avalid (snd x) = 1" and l: "size_arr st ! i = int (length (X ! i))"
      by (simp_all add: set_ok_def)
    have "\<forall>blk\<in>set (cblocks None (X ! i)). valid blk = 1"
    proof
      fix blk assume "blk \<in> set (cblocks None (X ! i))"
      then have "valid blk \<in> set (map valid (cblocks None (X ! i)))"
        by (simp del: cblocks_valid)
      with v show "valid blk = 1" by auto
    qed
    then have "valid_blocks st i = cblocks None (X ! i)"
      unfolding valid_blocks_def b by (rule filter_all)
    then show ?thesis using l by simp
  qed
  show "distinct (map tag (valid_blocks st i))"
  proof (cases "size_arr st ! i = 0")
    case True
    with ok obtain x where "X ! i = [x]" "avalid (snd x) = 0"
      by (cases "X ! i") (auto simp: set_ok_def)
    with b show ?thesis
      by (simp add: valid_blocks_def blk_of_def)
  next
    case False
    with ok have "distinct (map (atag \<circ> snd) (X ! i))"
      by (simp add: set_ok_def)
    then have "distinct (map tag (cblocks None (X ! i)))"
      by simp
    then show ?thesis
      unfolding valid_blocks_def b by (simp add: distinct_map_filter)
  qed
qed

lemma a_miss_size:
  "a_miss E sz tg c bs = Inr (sz', bs', ev) \<Longrightarrow> 1 \<le> E \<Longrightarrow> sz \<le> E \<Longrightarrow> sz' \<le> E"
  by (auto simp: a_miss_def a_evict_def bind_e_def split: if_splits)

lemma a_access_bounded:
  assumes "a_access s E b A addr = Inr A'" "1 \<le> E" "a_bounded E A"
  shows "a_bounded E A'"
proof -
  let ?i = "nat (set_index_of s b addr)"
  from assms(1) consider (hit) "asizes A' = asizes A"
    | (miss) c sz' bs' ev where "?i < length (asizes A)"
        "a_miss E (asizes A ! ?i) (tag_of s b addr) c (asets A ! ?i) = Inr (sz', bs', ev)"
        "asizes A' = (asizes A)[?i := sz']"
    by (auto simp: a_access_def Let_def split: if_splits option.splits prod.splits elim!: bind_e_InrE)
  then show ?thesis
  proof cases
    case hit
    with assms(3) show ?thesis by (simp add: a_bounded_def)
  next
    case miss
    from assms(3) miss(1) have "asizes A ! ?i \<le> E"
      by (simp add: a_bounded_def)
    from a_miss_size [OF miss(2) assms(2) this] assms(3) show ?thesis
      unfolding a_bounded_def miss(3)
      by (metis insertE set_update_subset_insert subsetD)
  qed
qed

lemma a_replay_bounded:
  "a_replay s E b recs A = Inr A' \<Longrightarrow> 1 \<le> E \<Longrightarrow> a_bounded E A \<Longrightarrow> a_bounded E A'"
proof (induction recs arbitrary: A)
  case Nil
  then show ?case by simp
next
  case (Cons r recs)
  obtain c addr where r: "r = (c, addr)" by (cases r)
  show ?case
  proof (cases "c = CHR ''S'' \<or> c = CHR ''L'' \<or> c = CHR ''M''")
    case False
    with Cons.prems r have "a_replay s E b recs A = Inr A'" by auto
    from Cons.IH [OF this Cons.prems(2,3)] show ?thesis .
  next
    case True
    with Cons.prems(1) r obtain A1 where
      a1: "a_access s E b A addr = Inr A1" and
      rest1: "(if c = CHR ''M'' then bind_e (a_access s E b A1 addr) (a_replay s E b recs)
        else a_replay s E b recs A1) = Inr A'"
      by (auto elim!: bind_e_InrE)
    from a_access_bounded [OF a1 Cons.prems(2,3)] have b1: "a_bounded E A1" .
    show ?thesis
    proof (cases "c = CHR ''M''")
      case False
      with rest1 have "a_replay s E b recs A1 = Inr A'" by simp
      from Cons.IH [OF this Cons.prems(2) b1] show ?thesis .
    next
      case M: True
      with rest1 obtain A2 where
        a2: "a_access s E b A1 addr = Inr A2" and rest2: "a_replay s E b recs A2 = Inr A'"
        by (auto elim!: bind_e_InrE)
      from a_access_bounded [OF a2 Cons.prems(2) b1] have "a_bounded E A2" .
      from Cons.IH [OF rest2 Cons.prems(2) this] show ?thesis .
    qed
  qed
qed

lemma a_init_bounded: "0 \<le> E \<Longrightarrow> a_bounded E (a_init s)"
  by (simp add: a_bounded_def a_init_def)

lemma run_refines:
  assumes "good_malloc malloc"
  shows "refines (run s E b malloc junk recs) (a_replay s E b recs (a_init s))"
proof -
  from main_init_refines [OF assms, of s junk] obtain st0 X0 where
    "main_init s malloc junk = Inr st0" "wf_state st0 X0" "abs_of st0 X0 = a_init s"
    by blast
  with refines_replay [OF this(2) assms, of s E b recs] show ?thesis
    by (simp add: run_def bind_r_def)
qed

lemma simulate_run:
  "simulate s E b malloc junk recs =
     bind_r (run s E b malloc junk recs) (\<lambda>st. Some (Inr (summary st)))"
  by (simp add: simulate_def run_def bind_r_def split: sum.splits option.splits)

lemma summary_abs_of: "a_summary (abs_of st X) = summary st"
  by (simp add: a_summary_def abs_of_def counters_def summary_def)

lemma simulate_abs:
  assumes "good_malloc malloc"
  shows "simulate s E b malloc junk recs =
     Some (map_sum id a_summary (a_replay s E b recs (a_init s)))"
  using run_refines [OF assms, of s E b junk recs]
  unfolding simulate_run refines_def
  by (auto simp: bind_r_def summary_abs_of split: sum.splits)

lemma reachable_wf:
  assumes "good_malloc malloc" "run s E b malloc junk recs = Some (Inr st)"
  shows "\<exists>X A. wf_state st X \<and> abs_of st X = A \<and> a_replay s E b recs (a_init s) = Inr A"
  using run_refines [OF assms(1), of s E b junk recs] assms(2)
  unfolding refines_def by (auto split: sum.splits)

lemma fold_max_ge: "m \<le> fold (\<lambda>(a, _) m. max (Suc a) m) h (m :: nat)"
proof (induction h arbitrary: m)
  case Nil
  then show ?case by simp
next
  case (Cons x h)
  obtain a v where x: "x = (a, v)" by (cases x)
  have "m \<le> max (Suc a) m" by simp
  also have "\<dots> \<le> fold (\<lambda>(a, _) m. max (Suc a) m) h (max (Suc a) m)"
    by (rule Cons.IH)
  finally show ?case by (simp add: x)
qed

lemma fold_max_gt: "(a, v) \<in> set h \<Longrightarrow> a < fold (\<lambda>(a, _) m. max (Suc a) m) h m"
proof (induction h arbitrary: m)
  case Nil
  then show ?case by simp
next
  case (Cons x h)
  show ?case
  proof (cases "(a, v) = x")
    case True
    have "max (Suc a) m \<le> fold (\<lambda>(a, _) m. max (Suc a) m) h (max (Suc a) m)"
      by (rule fold_max_ge)
    with True show ?thesis by auto
  next
    case False
    with Cons.prems have "(a, v) \<in> set h" by simp
    from Cons.IH [OF this] show ?thesis by (cases x) simp
  qed
qed

lemma good_malloc_top: "good_malloc malloc_top"
  unfolding good_malloc_def malloc_top_def
  by (auto simp: map_of_eq_None_iff dest: fold_max_gt [where m = 0])

lemma good_malloc_low: "good_malloc malloc_low"
  unfolding good_malloc_def
proof
  fix h :: heap
  have "card (fst ` set h) \<le> length h"
    by (metis card_image_le card_length le_trans List.finite_set)
  then have "card (fst ` set h) < card {0..<Suc (length h)}"
    by simp
  then have "\<not> {0..<Suc (length h)} \<subseteq> fst ` set h"
    by (metis card_mono finite_imageI List.finite_set not_le)
  then obtain a where "a \<in> {0..<Suc (length h)}" "a \<notin> fst ` set h"
    by blast
  then have "a \<in> set [0..<Suc (length h)]" "a \<notin> fst ` set h"
    by auto
  then have "malloc_low h \<noteq> None"
    unfolding malloc_low_def by (auto simp: find_None_iff)
  then obtain t where t: "malloc_low h = Some t"
    by auto
  then have "t \<notin> fst ` set h"
    unfolding malloc_low_def by (auto simp: find_Some_iff)
  with t show "\<exists>t. malloc_low h = Some t \<and> map_of h t = None"
    by (simp add: map_of_eq_None_iff)
qed

lemma split_scan_hd: "\<not> P x \<Longrightarrow> split_scan P (x # xs) = Some ([], x, xs)"
  by (cases xs) simp_all

lemma split_scan_app:
  "split_scan P xs = Some (pre, c, post) \<Longrightarrow> xs = pre @ c # post"
  by (induction P xs arbitrary: pre rule: split_scan.induct) (auto split: if_splits)

lemma a_access_twice:
  assumes "a_access s E b A addr = Inr A1"
  shows "\<exists>A2. a_access s E b A1 addr = Inr A2 \<and>
     acount A2 = (case acount A1 of (h, m, e) \<Rightarrow> (h + 1, m, e))"
proof -
  let ?i = "nat (set_index_of s b addr)"
  let ?tg = "tag_of s b addr"
  let ?P = "\<lambda>k. atag k \<noteq> ?tg"
  from assms have cfg: "\<not> (31 \<le> s \<or> 64 \<le> s + b)" "0 \<le> set_index_of s b addr"
    "?i < length (asets A)" "?i < length (asizes A)"
    by (auto simp: a_access_def Let_def split: if_splits)
  from assms cfg obtain pre c post where sp: "split_scan ?P (asets A ! ?i) = Some (pre, c, post)"
    by (auto simp: a_access_def Let_def split: option.splits)
  have "\<exists>bs. asets A1 = (asets A)[?i := bs] \<and> length (asizes A1) = length (asizes A) \<and>
      (\<exists>pre' c' post'. split_scan ?P bs = Some (pre', c', post') \<and> atag c' = ?tg \<and> avalid c' = 1)"
  proof (cases "atag c = ?tg \<and> avalid c = 1")
    case True
    with assms cfg sp have A1: "asets A1 = (asets A)[?i := a_hit (asizes A ! ?i) pre c post]"
      "asizes A1 = asizes A"
      by (auto simp: a_access_def Let_def split: prod.splits)
    have "\<exists>pre' c' post'. split_scan ?P (a_hit (asizes A ! ?i) pre c post) = Some (pre', c', post')
        \<and> atag c' = ?tg \<and> avalid c' = 1"
    proof (cases "asizes A ! ?i > 1 \<and> linked c \<and> pre \<noteq> []")
      case False
      with sp split_scan_app [OF sp] True show ?thesis
        by (auto simp: a_hit_def)
    next
      case moved: True
      with True show ?thesis
        by (cases post) (simp_all add: a_hit_def split_scan_hd)
    qed
    with A1 show ?thesis by auto
  next
    case False
    with assms cfg sp obtain sz' bs' ev where
      m: "a_miss E (asizes A ! ?i) ?tg c (asets A ! ?i) = Inr (sz', bs', ev)" and
      A1: "asets A1 = (asets A)[?i := bs']" "asizes A1 = (asizes A)[?i := sz']"
      by (auto simp: a_access_def Let_def split: prod.splits elim!: bind_e_InrE)
    from m have "\<exists>pre' c' post'. split_scan ?P bs' = Some (pre', c', post') \<and> atag c' = ?tg \<and> avalid c' = 1"
      by (auto simp: a_miss_def a_evict_def a_insert_def bind_e_def split_scan_hd split: if_splits)
    with A1 show ?thesis by auto
  qed
  then obtain bs pre' c' post' where
    "asets A1 = (asets A)[?i := bs]" "length (asizes A1) = length (asizes A)"
    "split_scan ?P bs = Some (pre', c', post')" "atag c' = ?tg" "avalid c' = 1"
    by blast
  with cfg show ?thesis
    by (simp add: a_access_def Let_def split: prod.splits)
qed

lemma access_reachable:
  assumes "good_malloc malloc" "wf_state st X"
    and "accessData s E b malloc st addr = Some (Inr st')"
  shows "\<exists>xs'. wf_state st' (X[nat (set_index_of s b addr) := xs']) \<and>
     a_access s E b (abs_of st X) addr = Inr (abs_of st' (X[nat (set_index_of s b addr) := xs'])) \<and>
     (\<forall>j. j \<noteq> nat (set_index_of s b addr) \<longrightarrow>
        sets st' ! j = sets st ! j \<and> size_arr st' ! j = size_arr st ! j)"
  using accessData_sim [OF assms(2,1), of s E b addr] assms(3)
  by (cases "a_access s E b (abs_of st X) addr") auto

lemma second_access_hits:
  assumes good: "good_malloc malloc" and r: "run s E b malloc junk recs = Some (Inr st)"
    and a1: "accessData s E b malloc st addr = Some (Inr st1)"
  shows "\<exists>st2. accessData s E b malloc st1 addr = Some (Inr st2) \<and> is_hit st1 st2"
proof -
  from reachable_wf [OF good r] obtain X where w: "wf_state st X"
    by blast
  from access_reachable [OF good w a1] obtain X1 where
    w1: "wf_state st1 X1" and "a_access s E b (abs_of st X) addr = Inr (abs_of st1 X1)"
    by blast
  from a_access_twice [OF this(2)] obtain A2 where
    a2: "a_access s E b (abs_of st1 X1) addr = Inr A2" and
    c2: "acount A2 = (case acount (abs_of st1 X1) of (h, m, e) \<Rightarrow> (h + 1, m, e))"
    by blast
  from accessData_sim [OF w1 good, of s E b addr] a2 obtain st2 X2 where
    "accessData s E b malloc st1 addr = Some (Inr st2)" "abs_of st2 X2 = A2"
    by auto
  with c2 show ?thesis
    by (auto simp: is_hit_def abs_of_def counters_def)
qed

section \<open>The claims\<close>

text \<open>
  C1 (recency ordering: after a hit on tag T the block of T is first in its set and the
  other blocks keep their order). The code does not do this. Lines 140 to 144 move a
  block from the inside of the list to the front without setting the \<^verbatim>\<open>prev\<close> pointer of
  the old head, which the sibling branch does at line 151; the old head keeps
  \<^verbatim>\<open>prev == NULL\<close>, and a later hit on it is taken for a hit on the head (line 136) and
  moves nothing. With s = 1, E = 3, b = 1, which \<^verbatim>\<open>main\<close> accepts, the addresses 4, 8, 12
  fall into set 0 with tags 1, 2, 3. After the accesses to 4, 8, 12, 8 the order in set 0
  is 2, 3, 1; the next access, to address 12 (tag 3), is a hit and leaves the order
  2, 3, 1.
\<close>

theorem hit_on_old_head_is_not_moved:
  "args_ok 1 3 1 \<and>
   map (set_index_of 1 1) [4, 8, 12] = [0, 0, 0] \<and> map (tag_of 1 1) [4, 8, 12] = [1, 2, 3] \<and>
   bind_r (run 1 3 1 malloc_top null_sets (loads [4, 8, 12, 8]))
     (\<lambda>st. Some (Inr (summary st, live_tags st 0))) = Some (Inr ((1, 3, 0), [2, 3, 1])) \<and>
   bind_r (run 1 3 1 malloc_top null_sets (loads [4, 8, 12, 8, 12]))
     (\<lambda>st. Some (Inr (summary st, live_tags st 0))) = Some (Inr ((2, 3, 0), [2, 3, 1]))"
  by code_simp

text \<open>
  C2 (no call of \<^verbatim>\<open>accessData\<close> on a state with at most E valid blocks per set and no
  duplicate tag reaches an error). The code dereferences a null pointer at line 176 when
  the block at the tail has \<^verbatim>\<open>prev == NULL\<close>. With s = 1, E = 1, b = 1 the access to
  address 0 leaves set 0 with the single tag 0 and size 1; the access to address 4 (set 0,
  tag 1) then evicts the only block and writes through the null \<^verbatim>\<open>LRU_tail\<close>. With three
  lines the same happens after the accesses to tags 1, 2, 3, 2, 4, 5.
\<close>

theorem eviction_dereferences_null:
  "bind_r (run 1 1 1 malloc_top null_sets (loads [0]))
     (\<lambda>st. Some (Inr (live_tags st 0, size_arr st, accessData 1 1 1 malloc_top st 4)))
     = Some (Inr ([0], [1, 0], Some (Inl NullDeref))) \<and>
   bind_r (run 0 3 0 malloc_top null_sets (loads [1, 2, 3, 2, 4]))
     (\<lambda>st. Some (Inr (live_tags st 0, size_arr st, accessData 0 3 0 malloc_top st 5)))
     = Some (Inr ([4, 2, 3], [3], Some (Inl NullDeref)))"
  by code_simp

text \<open>
  C3 (scenario 2: s = 0, E = 1, b = 0 and the addresses 0, 16 give 0 hits, 2 misses and
  1 eviction). In the code the first access misses and the second does not return: the
  eviction dereferences the null \<^verbatim>\<open>LRU_tail\<close> at line 176, whatever \<^verbatim>\<open>malloc\<close> returns.
  \<^verbatim>\<open>main\<close> refuses s = 0 and b = 0 at line 239, before the cache is built; with s = 1,
  E = 1, b = 1, which it accepts, the same two addresses fall into set 0 with tags 0 and 4
  and the run ends the same way.
\<close>

theorem scenario_2_dereferences_null:
  "simulate 0 1 0 malloc_top null_sets (loads [0]) = Some (Inr (0, 1, 0)) \<and>
   simulate 0 1 0 malloc_top null_sets (loads [0, 16]) = Some (Inl NullDeref) \<and>
   simulate 0 1 0 malloc_low null_sets (loads [0, 16]) = Some (Inl NullDeref) \<and>
   simulate 1 1 1 malloc_top null_sets (loads [0, 16]) = Some (Inl NullDeref)"
  by code_simp

text \<open>
  C4 (the tag is the whole of \<^verbatim>\<open>addr >> (s + b)\<close>, so that two addresses that differ there
  are never matched to the same line). The code stores the tag in an \<^verbatim>\<open>int\<close> and keeps
  its low 32 bits only. With s = 1, E = 1, b = 1 the addresses 0 and 0x400000000 differ
  in \<^verbatim>\<open>addr >> 2\<close>, get the same set and the same tag, and the second access is a hit.
\<close>

theorem tag_is_cut_to_32_bits:
  "drop_bit (1 + 1) (0x400000000 :: mem_addr_t) \<noteq> drop_bit (1 + 1) 0 \<and>
   tag_of 1 1 0x400000000 = tag_of 1 1 0 \<and>
   set_index_of 1 1 0x400000000 = set_index_of 1 1 0 \<and>
   simulate 1 1 1 malloc_top null_sets (loads [0, 0x400000000]) = Some (Inr (1, 1, 0))"
  by code_simp

text \<open>
  C5 (on a miss in a full set the block removed is the least recently used one). The code
  removes the block at the tail, and after the defect described at C1 the tail need not
  be the least recently used block. With s = 1, E = 3, b = 1, which \<^verbatim>\<open>main\<close> accepts, the
  addresses 4, 8, 12, 16, 20 fall into set 0 with tags 1, 2, 3, 4, 5. After the accesses
  to 4, 8, 12, 8, 16, 12, 8 set 0 holds the tags 2, 4, 3 in list order; tag 4 was last
  accessed at position 5 and tag 3 at position 6, so tag 4 is the least recently used.
  The miss on address 20 (tag 5) removes tag 3 and keeps tag 4.
\<close>

theorem eviction_removes_recently_used_block:
  "args_ok 1 3 1 \<and>
   map (set_index_of 1 1) [4, 8, 12, 16, 20] = [0, 0, 0, 0, 0] \<and>
   map (tag_of 1 1) [4, 8, 12, 16, 20] = [1, 2, 3, 4, 5] \<and>
   bind_r (run 1 3 1 malloc_top null_sets (loads [4, 8, 12, 8, 16, 12, 8]))
     (\<lambda>st. Some (Inr (summary st, live_tags st 0))) = Some (Inr ((3, 4, 1), [2, 4, 3])) \<and>
   least_recent (map (tag_of 1 1) [4, 8, 12, 8, 16, 12, 8]) [2, 4, 3] = 4 \<and>
   bind_r (run 1 3 1 malloc_top null_sets (loads [4, 8, 12, 8, 16, 12, 8, 20]))
     (\<lambda>st. Some (Inr (summary st, live_tags st 0))) = Some (Inr ((3, 5, 2), [5, 2, 4]))"
  by code_simp

text \<open>
  C6 (invariant). In every state reached from the cache \<^verbatim>\<open>main\<close> builds by a trace whose
  accesses all return, with E at least 1 and a \<^verbatim>\<open>malloc\<close> that returns blocks not in use,
  every set holds at most E valid blocks and no two valid blocks of a set have the same
  tag. The blocks of set \<open>i\<close> are those the \<^verbatim>\<open>next\<close> pointers reach from its head.
\<close>

theorem reachable_sets_bounded_and_distinct:
  assumes "good_malloc malloc" and "1 \<le> E"
    and "run s E b malloc junk recs = Some (Inr st)" and "i < length (sets st)"
  shows "int (length (valid_blocks st i)) \<le> E \<and> distinct (map tag (valid_blocks st i))"
proof -
  from reachable_wf [OF assms(1,3)] obtain X where
    w: "wf_state st X" and a: "a_replay s E b recs (a_init s) = Inr (abs_of st X)"
    by blast
  from w assms(4) have i: "i < length X" "i < length (size_arr st)"
    by (simp_all add: wf_state_def)
  from assms(2) have "a_bounded E (a_init s)"
    by (intro a_init_bounded) simp
  from a_replay_bounded [OF a assms(2) this] i have "size_arr st ! i \<le> E"
    by (simp add: a_bounded_def abs_of_def)
  with valid_blocks_wf [OF w i(1)] show ?thesis
    by simp
qed

theorem reachable_sets_bounded_and_distinct_witness:
  "good_malloc malloc_top \<and> (1 :: int) \<le> 2 \<and>
   (\<exists>st. run 1 2 1 malloc_top null_sets (loads [0, 8, 16, 2, 8]) = Some (Inr st) \<and>
      0 < length (sets st) \<and>
      int (length (valid_blocks st 0)) \<le> 2 \<and> distinct (map tag (valid_blocks st 0)) \<and>
      live_tags st 0 = [2, 4])"
proof -
  let ?recs = "loads [0, 8, 16, 2, 8]"
  have "returns (bind_r (run 1 2 1 malloc_top null_sets ?recs)
      (\<lambda>st. if 0 < length (sets st) \<and> live_tags st 0 = [2, 4] then Some (Inr st) else None))"
    by code_simp
  then obtain st where r: "run 1 2 1 malloc_top null_sets ?recs = Some (Inr st)"
    and l: "0 < length (sets st)" and tags: "live_tags st 0 = [2, 4]"
    by (auto simp: bind_r_def elim!: returnsE split: option.splits sum.splits if_splits)
  have E: "(1 :: int) \<le> 2"
    by simp
  from reachable_sets_bounded_and_distinct [OF good_malloc_top E r l] good_malloc_top r l tags
  show ?thesis
    by auto
qed

text \<open>
  C7 (counter conservation: after any finite record sequence the hits and the misses add
  up to the number of accesses, there are at most as many evictions as misses, and every
  access adds one to exactly one of the hit and miss counters). The counters are \<^verbatim>\<open>int\<close>s.
  With s = 1, E = 1, b = 1 and 2147483649 loads of address 0 the first access is a miss and
  the other 2147483648 are hits; the hit counter wraps around and \<^verbatim>\<open>main\<close> ends with
  -2147483648 hits and 1 miss, which do not add up to 2147483649.
\<close>

theorem counter_conservation_counterexample:
  "accesses (replicate 2147483649 (CHR ''L'', 0)) = 2147483649 \<and>
   main 1 1 1 malloc_top null_sets (replicate 2147483649 (CHR ''L'', 0)) =
     Some (Inr (- 2147483648, 1, 0)) \<and>
   (- 2147483648 :: int) + 1 \<noteq> 2147483649"
proof -
  let ?c = "\<lparr>atag = 0, avalid = 1, linked = False\<rparr>"
  define A where "A h = \<lparr>asets = [[?c], [sentinel]], asizes = [1, 0], acount = (h, 1, 0)\<rparr>"
    for h :: "32 word"
  have first: "a_access (Suc 0) 1 (Suc 0) (a_init (Suc 0)) 0 = Inr (A 0)"
    unfolding A_def by code_simp
  have idx: "set_index_of (Suc 0) (Suc 0) 0 = 0" "tag_of (Suc 0) (Suc 0) 0 = 0"
    by code_simp+
  have hit: "a_access (Suc 0) 1 (Suc 0) (A h) 0 = Inr (A (h + 1))" for h
    by (simp add: a_access_def A_def idx Let_def a_hit_def)
  have hits: "a_replay (Suc 0) 1 (Suc 0) (replicate n (CHR ''L'', 0)) (A h) = Inr (A (h + of_nat n))"
    for n h
  proof (induction n arbitrary: h)
    case 0
    show ?case by simp
  next
    case (Suc n)
    have "a_replay (Suc 0) 1 (Suc 0) (replicate (Suc n) (CHR ''L'', 0)) (A h) =
        a_replay (Suc 0) 1 (Suc 0) (replicate n (CHR ''L'', 0)) (A (h + 1))"
      by (simp add: hit bind_e_def)
    also have "\<dots> = Inr (A (h + 1 + of_nat n))"
      by (rule Suc.IH)
    finally show ?case
      by (simp add: add.assoc)
  qed
  have n: "(2147483649 :: nat) = Suc 2147483648"
    by simp
  have "replicate 2147483649 (CHR ''L'', 0 :: 64 word) =
      (CHR ''L'', 0) # replicate 2147483648 (CHR ''L'', 0)"
    by (simp only: n replicate_Suc)
  then have "a_replay (Suc 0) 1 (Suc 0) (replicate 2147483649 (CHR ''L'', 0)) (a_init (Suc 0)) =
      a_replay (Suc 0) 1 (Suc 0) (replicate 2147483648 (CHR ''L'', 0)) (A 0)"
    by (simp add: first bind_e_def)
  also have "\<dots> = Inr (A 2147483648)"
    using hits [of 2147483648 0] by simp
  finally have "a_replay (Suc 0) 1 (Suc 0) (replicate 2147483649 (CHR ''L'', 0))
      (a_init (Suc 0)) = Inr (A 2147483648)" .
  then have "simulate 1 1 1 malloc_top null_sets (replicate 2147483649 (CHR ''L'', 0)) =
      Some (Inr (- 2147483648, 1, 0))"
    by (simp add: simulate_abs [OF good_malloc_top] a_summary_def A_def)
  moreover have "accesses (replicate n (CHR ''L'', 0)) = int n" for n
    by (induction n) simp_all
  from this [of 2147483649] have "accesses (replicate 2147483649 (CHR ''L'', 0)) = 2147483649"
    by simp
  ultimately show ?thesis
    by (simp add: main_def)
qed

text \<open>
  C7 as amended. After a trace that asks for fewer than \<open>2 ^ 31\<close> accesses (one for \<^verbatim>\<open>L\<close>
  and \<^verbatim>\<open>S\<close>, two for \<^verbatim>\<open>M\<close>, none for other lines), replayed on the cache \<^verbatim>\<open>main\<close> builds,
  the hits and the misses add up to the number of accesses and there are at most as many
  evictions as misses; and every call of \<^verbatim>\<open>accessData\<close> that returns adds one, in 32-bit
  arithmetic, to exactly one of the hit and miss counters.
\<close>

theorem counter_conservation_below_overflow:
  "(run s E b malloc junk recs = Some (Inr st) \<and> accesses recs < 2 ^ 31 \<longrightarrow>
      sint (hit_count st) + sint (miss_count st) = accesses recs \<and>
      sint (eviction_count st) \<le> sint (miss_count st)) \<and>
   (accessData s E b malloc st1 addr = Some (Inr st2) \<longrightarrow>
      (hit_count st2 = hit_count st1 + 1 \<and> miss_count st2 = miss_count st1) \<or>
      (hit_count st2 = hit_count st1 \<and> miss_count st2 = miss_count st1 + 1))"
proof (intro conjI impI)
  assume "accessData s E b malloc st1 addr = Some (Inr st2)"
  from accessData_outcome [OF this]
  show "(hit_count st2 = hit_count st1 + 1 \<and> miss_count st2 = miss_count st1) \<or>
      (hit_count st2 = hit_count st1 \<and> miss_count st2 = miss_count st1 + 1)"
    by (auto simp: is_hit_def is_miss_def counters_def)
next
  assume a: "run s E b malloc junk recs = Some (Inr st) \<and> accesses recs < 2 ^ 31"
  then obtain st0 where
    i: "main_init s malloc junk = Inr st0" and r: "replayTrace s E b malloc recs st0 = Some (Inr st)"
    unfolding run_def by (auto elim!: bind_r_InrE)
  from a have small: "accesses recs < 2 ^ 31"
    by simp
  from counted_from_zero [OF replayTrace_counts [OF r] main_init_counters [OF i] small]
  show "sint (hit_count st) + sint (miss_count st) = accesses recs"
    and "sint (eviction_count st) \<le> sint (miss_count st)" .
qed

theorem counter_conservation_below_overflow_witness:
  "args_ok 1 2 1 \<and>
   (\<exists>st0 st1 st.
     run 1 2 1 malloc_top null_sets
       [(CHR ''M'', 4), (CHR ''I'', 8), (CHR ''L'', 16), (CHR ''S'', 32)] = Some (Inr st) \<and>
     accesses [(CHR ''M'', 4), (CHR ''I'', 8), (CHR ''L'', 16), (CHR ''S'', 32)] < 2 ^ 31 \<and>
     sint (hit_count st) + sint (miss_count st) = 4 \<and>
     sint (eviction_count st) \<le> sint (miss_count st) \<and> summary st = (1, 3, 1) \<and>
     main_init 1 malloc_top null_sets = Inr st0 \<and>
     accessData 1 2 1 malloc_top st0 4 = Some (Inr st1) \<and>
     hit_count st1 = hit_count st0 \<and> miss_count st1 = miss_count st0 + 1)"
proof -
  let ?recs = "[(CHR ''M'', 4), (CHR ''I'', 8), (CHR ''L'', 16), (CHR ''S'', 32)]"
  have "returns (bind_r (run 1 2 1 malloc_top null_sets ?recs)
      (\<lambda>st. if summary st = (1, 3, 1) then Some (Inr st) else None))"
    by code_simp
  then obtain st where st: "run 1 2 1 malloc_top null_sets ?recs = Some (Inr st)"
    and sm: "summary st = (1, 3, 1)"
    by (auto simp: bind_r_def elim!: returnsE split: option.splits sum.splits if_splits)
  have "returns (Some (main_init 1 malloc_top null_sets))"
    by code_simp
  then obtain st0 where st0: "main_init 1 malloc_top null_sets = Inr st0"
    by (auto elim: returnsE)
  have "returns (bind_r (Some (main_init 1 malloc_top null_sets))
      (\<lambda>st0. bind_r (accessData 1 2 1 malloc_top st0 4)
        (\<lambda>st1. if hit_count st1 = hit_count st0 then Some (Inr st1) else None)))"
    by code_simp
  with st0 obtain st1 where
    st1: "accessData 1 2 1 malloc_top st0 4 = Some (Inr st1)" and h: "hit_count st1 = hit_count st0"
    by (auto simp: bind_r_def elim!: returnsE split: option.splits sum.splits if_splits)
  have acc: "accesses ?recs = 4"
    by simp
  have ok: "args_ok 1 2 1"
    by (simp add: args_ok_def)
  from counter_conservation_below_overflow [of 1 2 1 malloc_top null_sets ?recs st st0 4 st1]
    st st1 h acc sm ok
  show ?thesis
    using st0 by auto
qed

text \<open>
  C8 (a modify record gives a hit and a hit, or a miss, possibly with an eviction, and a
  hit, for every E of at least 1). The header of the file says the same (lines 10 to 12).
  With s = 1, E = 1, b = 1 and tag 0 in set 0, the record \<^verbatim>\<open>M 4\<close> asks for tag 1 in set 0:
  its first access is a miss with an eviction, and the eviction dereferences the null
  \<^verbatim>\<open>LRU_tail\<close> at line 176, so the record has no second access and no outcome. Whenever
  the first access does return, the second returns and is a hit (\<open>second_access_hits\<close>).
\<close>

theorem modify_with_eviction_dereferences_null:
  "bind_r (run 1 1 1 malloc_top null_sets (loads [0]))
     (\<lambda>st. Some (Inr (live_tags st 0, replayTrace 1 1 1 malloc_top [(CHR ''M'', 4)] st)))
     = Some (Inr ([0], Some (Inl NullDeref))) \<and>
   run 1 1 1 malloc_top null_sets [(CHR ''L'', 0), (CHR ''M'', 4)] = Some (Inl NullDeref)"
  by code_simp

text \<open>
  C9 (determinism). What the program leaves open is the addresses \<^verbatim>\<open>malloc\<close> returns and
  the contents of the memory it hands out (\<^verbatim>\<open>LRU_tail\<close> is read from the array \<^verbatim>\<open>c1.sets\<close>
  only after it was written). For any two allocators that return blocks not in use and
  any two initial contents of \<^verbatim>\<open>c1.sets\<close>, the same configuration and the same records give
  the same result: the same three counters, or the same error.
\<close>

theorem simulation_is_deterministic:
  assumes "good_malloc malloc1" and "good_malloc malloc2"
  shows "simulate s E b malloc1 junk1 recs = simulate s E b malloc2 junk2 recs"
  by (simp add: simulate_abs [OF assms(1)] simulate_abs [OF assms(2)])

theorem simulation_is_deterministic_witness:
  "good_malloc malloc_top \<and> good_malloc malloc_low \<and>
   simulate 0 2 0 malloc_top null_sets (loads [0, 16, 0, 32]) =
   simulate 0 2 0 malloc_low (\<lambda>i. \<lparr>LRU_head = Some 7, LRU_tail = Some 9\<rparr>) (loads [0, 16, 0, 32]) \<and>
   simulate 0 2 0 malloc_top null_sets (loads [0, 16, 0, 32]) = Some (Inr (1, 3, 1))"
proof -
  have "simulate 0 2 0 malloc_top null_sets (loads [0, 16, 0, 32]) = Some (Inr (1, 3, 1))"
    by code_simp
  with simulation_is_deterministic [OF good_malloc_top good_malloc_low,
      of 0 2 0 null_sets "loads [0, 16, 0, 32]" "\<lambda>i. \<lparr>LRU_head = Some 7, LRU_tail = Some 9\<rparr>"]
    good_malloc_top good_malloc_low
  show ?thesis
    by simp
qed

text \<open>
  C10 (frame). In a state reached from the cache \<^verbatim>\<open>main\<close> builds, a call of \<^verbatim>\<open>accessData\<close>
  that returns leaves every set other than the one the address decodes to as it was: its
  entry in \<^verbatim>\<open>c1.sets\<close>, its entry in \<^verbatim>\<open>size\<close>, and its blocks with all their fields, in
  the order of the list.
\<close>

theorem access_leaves_other_sets_unchanged:
  assumes "good_malloc malloc" and "run s E b malloc junk recs = Some (Inr st)"
    and "accessData s E b malloc st addr = Some (Inr st')"
    and "j < length (sets st)" and "j \<noteq> nat (set_index_of s b addr)"
  shows "sets st' ! j = sets st ! j \<and> size_arr st' ! j = size_arr st ! j \<and>
     blocks_of st' j = blocks_of st j"
proof -
  from reachable_wf [OF assms(1,2)] obtain X where w: "wf_state st X"
    by blast
  from access_reachable [OF assms(1) w assms(3)] obtain xs' where
    w': "wf_state st' (X[nat (set_index_of s b addr) := xs'])" and
    same: "\<forall>j. j \<noteq> nat (set_index_of s b addr) \<longrightarrow>
        sets st' ! j = sets st ! j \<and> size_arr st' ! j = size_arr st ! j"
    by blast
  from w assms(4) have j: "j < length X"
    by (simp add: wf_state_def)
  from blocks_of_wf [OF w j] blocks_of_wf [OF w', of j] j assms(5)
  have "blocks_of st' j = blocks_of st j"
    by simp
  with same assms(5) show ?thesis
    by simp
qed

theorem access_leaves_other_sets_unchanged_witness:
  "good_malloc malloc_top \<and>
   (\<exists>st st'. run 1 2 1 malloc_top null_sets (loads [0, 2]) = Some (Inr st) \<and>
      accessData 1 2 1 malloc_top st 8 = Some (Inr st') \<and>
      1 < length (sets st) \<and> 1 \<noteq> nat (set_index_of 1 1 8) \<and>
      sets st' ! 1 = sets st ! 1 \<and> size_arr st' ! 1 = size_arr st ! 1 \<and>
      blocks_of st' 1 = blocks_of st 1 \<and> live_tags st' 0 = [2, 0] \<and> live_tags st' 1 = [0])"
proof -
  have "returns (bind_r (run 1 2 1 malloc_top null_sets (loads [0, 2])) (\<lambda>st.
      bind_r (accessData 1 2 1 malloc_top st 8) (\<lambda>st'.
        if 1 < length (sets st) \<and> live_tags st' 0 = [2, 0] \<and> live_tags st' 1 = [0]
        then Some (Inr (st, st')) else None)))"
    by code_simp
  then obtain st st' where r: "run 1 2 1 malloc_top null_sets (loads [0, 2]) = Some (Inr st)"
    and a: "accessData 1 2 1 malloc_top st 8 = Some (Inr st')"
    and l: "1 < length (sets st)" and tags: "live_tags st' 0 = [2, 0]" "live_tags st' 1 = [0]"
    by (auto simp: bind_r_def elim!: returnsE split: option.splits sum.splits if_splits)
  have j: "1 \<noteq> nat (set_index_of 1 1 8)"
    by code_simp
  from access_leaves_other_sets_unchanged [OF good_malloc_top r a l j] good_malloc_top r a l j tags
  show ?thesis
    by auto
qed

end
